theory Spec2Isabelle
  imports Complex_Main "HOL-Library.Sublist"
begin

section \<open>Python text\<close>

text \<open>
  A Python \<open>str\<close> is a sequence of Unicode code points. The splitter trims with
  \<open>str.strip()\<close>, which removes every code point that \<open>str.isspace\<close> accepts, so a
  character is modelled by its code point (a natural number) and a string by the list
  of its code points. \<open>py_str\<close> turns an ASCII literal into such a string.
\<close>

type_synonym pystr = "nat list"

definition py_str :: "string \<Rightarrow> pystr" where
  "py_str s = map of_char s"

text \<open>The code points for which \<open>str.isspace()\<close> holds (CPython's whitespace table).\<close>

definition isspace :: "nat \<Rightarrow> bool" where
  "isspace c \<longleftrightarrow>
     (9 \<le> c \<and> c \<le> 13) \<or> (28 \<le> c \<and> c \<le> 32) \<or> c = 133 \<or> c = 160 \<or> c = 5760 \<or>
     (8192 \<le> c \<and> c \<le> 8202) \<or> c = 8232 \<or> c = 8233 \<or> c = 8239 \<or> c = 8287 \<or> c = 12288"

text \<open>\<open>s.strip()\<close>: drop the whitespace at both ends.\<close>

definition strip :: "pystr \<Rightarrow> pystr" where
  "strip s = rev (dropWhile isspace (rev (dropWhile isspace s)))"

text \<open>\<open>s.startswith(p)\<close>.\<close>

definition startswith :: "pystr \<Rightarrow> pystr \<Rightarrow> bool" where
  "startswith s p \<longleftrightarrow> take (length p) s = p"

text \<open>\<open>sep.join(xs)\<close>.\<close>

fun join :: "pystr \<Rightarrow> pystr list \<Rightarrow> pystr" where
  "join sep [] = []"
| "join sep [x] = x"
| "join sep (x # y # ys) = x @ sep @ join sep (y # ys)"

text \<open>The semicolon, the statement terminator tested by \<open>';' in line\<close>.\<close>

definition semicolon :: nat where
  "semicolon = 59"

text \<open>
  \<open>len(line.encode('utf-8'))\<close>: the number of bytes of the UTF-8 encoding, one to four
  per code point.
\<close>

definition utf8_len :: "nat \<Rightarrow> nat" where
  "utf8_len c = (if c < 128 then 1 else if c < 2048 then 2 else if c < 65536 then 3 else 4)"

definition encoded_size :: "pystr \<Rightarrow> nat" where
  "encoded_size s = sum_list (map utf8_len s)"

text \<open>
  The format specification \<open>{n:03d}\<close> for a non-negative \<open>n\<close>: the decimal digits,
  padded on the left with zeros to a width of three. Longer numbers are not cut.
\<close>

fun digits :: "nat \<Rightarrow> pystr" where
  "digits n = (if n < 10 then [48 + n] else digits (n div 10) @ [48 + n mod 10])"

declare digits.simps [simp del]

definition format_03d :: "nat \<Rightarrow> pystr" where
  "format_03d n = replicate (3 - length (digits n)) 48 @ digits n"

text \<open>
  Reading a file opened in text mode: \<open>\r\n\<close> and a lone \<open>\r\<close> are translated to
  \<open>\n\<close> (universal newlines), and iterating over the file yields the lines, each with
  its \<open>\n\<close>, the last one possibly without.
\<close>

fun universal_newlines :: "pystr \<Rightarrow> pystr" where
  "universal_newlines [] = []"
| "universal_newlines (c # cs) =
     (if c = 13 then
        (case cs of
           [] \<Rightarrow> [10]
         | d # ds \<Rightarrow> if d = 10 then 10 # universal_newlines ds
                    else 10 # universal_newlines (d # ds))
      else c # universal_newlines cs)"

fun split_keepends :: "pystr \<Rightarrow> pystr list" where
  "split_keepends [] = []"
| "split_keepends (c # cs) =
     (if c = 10 then [10] # split_keepends cs
      else (case split_keepends cs of
              [] \<Rightarrow> [[c]]
            | l # ls \<Rightarrow> (c # l) # ls))"

definition text_lines :: "pystr \<Rightarrow> pystr list" where
  "text_lines content = split_keepends (universal_newlines content)"


section \<open>The file system, the clock and the terminal\<close>

text \<open>
  A path is the list of the components that its text has between the separators:
  \<open>out/../in.sql\<close> is \<open>[out, .., in.sql]\<close>, a path that starts with a separator has
  an empty first component, and the empty list is the empty path \<open>''\<close>. So
  \<open>os.path.join(d, name)\<close> is \<open>d @ [name]\<close>. A place in the tree of directories is
  given by the names that lead to it from the top, and the file system maps a place
  to what is there; the empty list of names is the top directory. The process runs
  in the top directory, there are no symbolic links, and names are compared as they
  are written. A file holds decoded text (the input is required to be valid UTF-8),
  and text is written as it is, without a translation of the line ends.
\<close>

type_synonym path = "pystr list"

datatype node = File pystr | Dir

type_synonym filesystem = "path \<rightharpoonup> node"

text \<open>
  The exceptions that can occur. \<open>OSError\<close> stands for the operating-system errors
  other than a missing file (a file where a directory is needed, or the reverse).
  \<open>SystemExit\<close> is raised by \<open>sys.exit\<close> and is not caught by \<open>except Exception\<close>.
\<close>

datatype exn = FileNotFoundError | OSError | ZeroDivisionError | OverflowError | SystemExit nat

text \<open>
  What the program prints. The wording of a message and the formatting of its numbers
  are not modelled: a message carries the quantities it reports.
\<close>

datatype message =
    SizeWarning nat
  | ProgressLine rat nat nat rat int
  | ProcessingError exn
  | WriteError path exn
  | MainError exn
  | Done
  | TotalTime int
  | AverageSpeed rat
  | FileCount nat
  | StatementCount nat
  | OutputDir path

text \<open>
  The world the program runs in: the file system, the wall clock (\<open>now w k\<close> is what
  the \<open>k\<close>-th call of \<open>time.time()\<close> returns: the program cannot influence it, and
  it need not be monotonic), and what has been printed. Python's floats are
  modelled by rationals. \<open>written\<close> is a history variable: it records, in order,
  each file the writer has written and the batch of statements it was given.
\<close>

record world =
  fs :: filesystem
  now :: "nat \<Rightarrow> rat"
  ticks :: nat
  stdout :: "message list"
  written :: "(path \<times> pystr list) list"

definition time_time :: "world \<Rightarrow> rat \<times> world" where
  "time_time w = (now w (ticks w), w\<lparr>ticks := Suc (ticks w)\<rparr>)"

definition print :: "message \<Rightarrow> world \<Rightarrow> world" where
  "print m w = w\<lparr>stdout := stdout w @ [m]\<rparr>"

text \<open>What is at a place: the top directory is always there.\<close>

definition node_at :: "filesystem \<Rightarrow> path \<Rightarrow> node option" where
  "node_at f p = (if p = [] then Some Dir else f p)"

text \<open>
  Looking a path up, as the operating system does: the components are followed one
  after the other from the top directory. Each one is taken in a directory that
  exists; an empty component and \<open>.\<close> stay there, \<open>..\<close> goes one directory up (and
  stays at the top), a name goes down to the entry of that name. The empty path
  names nothing.
\<close>

definition dot :: pystr where
  "dot = [46]"

definition dotdot :: pystr where
  "dotdot = [46, 46]"

fun walk :: "filesystem \<Rightarrow> path \<Rightarrow> path \<Rightarrow> exn + path" where
  "walk f cur [] = Inr cur"
| "walk f cur (c # cs) =
     (case node_at f cur of
        None \<Rightarrow> Inl FileNotFoundError
      | Some (File _) \<Rightarrow> Inl OSError
      | Some Dir \<Rightarrow>
          (if c = [] \<or> c = dot then walk f cur cs
           else if c = dotdot then walk f (butlast cur) cs
           else walk f (cur @ [c]) cs))"

definition lookup :: "filesystem \<Rightarrow> path \<Rightarrow> exn + node" where
  "lookup f p =
     (if p = [] then Inl FileNotFoundError
      else
        (case walk f [] p of
           Inl e \<Rightarrow> Inl e
         | Inr q \<Rightarrow> (case node_at f q of None \<Rightarrow> Inl FileNotFoundError | Some n \<Rightarrow> Inr n)))"

text \<open>
  \<open>os.path.exists\<close>, which is false whenever the look-up fails, and
  \<open>os.path.getsize\<close>: the size of a file in bytes. For a directory the operating
  system reports a size of its own; it is taken as zero here, and the program never
  uses it, since opening a directory fails.
\<close>

definition path_exists :: "filesystem \<Rightarrow> path \<Rightarrow> bool" where
  "path_exists f p \<longleftrightarrow> (case lookup f p of Inl e \<Rightarrow> False | Inr n \<Rightarrow> True)"

definition getsize :: "filesystem \<Rightarrow> path \<Rightarrow> nat" where
  "getsize f p = (case lookup f p of Inr (File t) \<Rightarrow> encoded_size t | _ \<Rightarrow> 0)"

text \<open>
  \<open>os.makedirs(p, exist_ok=True)\<close> creates the missing directories from the top down.
  A directory that is already there is accepted; a file in its place is an error,
  and so is the empty path. The directories are created, and the files written, at
  the place that the names of the path give as they stand.
\<close>

definition mkdir_exist_ok :: "path \<Rightarrow> filesystem \<Rightarrow> exn + filesystem" where
  "mkdir_exist_ok p f =
     (case node_at f p of
        None \<Rightarrow> Inr (f(p \<mapsto> Dir))
      | Some Dir \<Rightarrow> Inr f
      | Some (File _) \<Rightarrow> Inl OSError)"

fun makedirs_under :: "path \<Rightarrow> path \<Rightarrow> filesystem \<Rightarrow> exn + filesystem" where
  "makedirs_under base [] f = Inr f"
| "makedirs_under base (c # cs) f =
     (case mkdir_exist_ok (base @ [c]) f of
        Inl e \<Rightarrow> Inl e
      | Inr f' \<Rightarrow> makedirs_under (base @ [c]) cs f')"

definition makedirs :: "path \<Rightarrow> filesystem \<Rightarrow> exn + filesystem" where
  "makedirs p f = (if p = [] then Inl FileNotFoundError else makedirs_under [] p f)"

text \<open>
  \<open>open(p, 'r', encoding='utf-8')\<close> followed by iteration over the lines, and
  \<open>open(p, 'w', encoding='utf-8')\<close> followed by one \<open>write\<close>: the file is created or
  truncated, so earlier content is lost. Writing needs the parent directory.
\<close>

definition open_read :: "filesystem \<Rightarrow> path \<Rightarrow> exn + pystr list" where
  "open_read f p =
     (case lookup f p of
        Inl e \<Rightarrow> Inl e
      | Inr Dir \<Rightarrow> Inl OSError
      | Inr (File t) \<Rightarrow> Inr (text_lines t))"

definition open_write :: "filesystem \<Rightarrow> path \<Rightarrow> pystr \<Rightarrow> exn + filesystem" where
  "open_write f p content =
     (case node_at f p of
        Some Dir \<Rightarrow> Inl OSError
      | _ \<Rightarrow>
        (case node_at f (butlast p) of
           None \<Rightarrow> Inl FileNotFoundError
         | Some (File _) \<Rightarrow> Inl OSError
         | Some Dir \<Rightarrow> Inr (f(p \<mapsto> File content))))"

text \<open>
  \<open>Path(p).stem\<close>: the last component without its last suffix. A dot at the start
  or at the end of the name does not begin a suffix. \<open>Path\<close> drops the empty
  components and the components \<open>.\<close> of the text it is given.
\<close>

definition name_stem :: "pystr \<Rightarrow> pystr" where
  "name_stem name =
     (if 46 \<in> set name then
        (let i = length name - 1 - length (takeWhile (\<lambda>c. c \<noteq> 46) (rev name))
         in if 0 < i \<and> i < length name - 1 then take i name else name)
      else name)"

definition path_stem :: "path \<Rightarrow> pystr" where
  "path_stem p =
     (let q = filter (\<lambda>c. c \<noteq> [] \<and> c \<noteq> dot) p
      in if q = [] then [] else name_stem (last q))"


section \<open>The splitter\<close>

text \<open>The fields of a \<open>SQLSplitter\<close> object.\<close>

record splitter =
  input_file :: path
  output_dir :: path
  statements_per_file :: int
  file_size :: nat
  start_time :: rat
  processed_size :: nat
  last_progress_time :: rat

text \<open>
  \<open>SQLSplitter.__init__\<close>: the output directory is created first, then the input file
  is looked for, then its size is read (with a warning above 1 GiB) and the clock is
  read twice. \<open>statements_per_file\<close> is stored as it comes.
\<close>

definition SQLSplitter_init :: "path \<Rightarrow> path \<Rightarrow> int \<Rightarrow> world \<Rightarrow> (exn + splitter) \<times> world" where
  "SQLSplitter_init inp out n w =
     (case makedirs out (fs w) of
        Inl e \<Rightarrow> (Inl e, w)
      | Inr f1 \<Rightarrow>
        (let w1 = w\<lparr>fs := f1\<rparr> in
         if \<not> path_exists f1 inp then (Inl FileNotFoundError, w1)
         else
           (let size = getsize f1 inp;
                w2 = (if size > 1024 * 1024 * 1024 then print (SizeWarning size) w1 else w1);
                (t1, w3) = time_time w2;
                (t2, w4) = time_time w3
            in (Inr \<lparr>input_file = inp, output_dir = out, statements_per_file = n,
                     file_size = size, start_time = t1, processed_size = 0,
                     last_progress_time = t2\<rparr>, w4))))"

text \<open>
  \<open>_format_time\<close>: \<open>int(seconds)\<close> truncates towards zero, and
  \<open>datetime.timedelta\<close> refuses a duration of more than 999999999 days with an
  \<open>OverflowError\<close>. The result stands for the text of the duration.
\<close>

definition py_int :: "rat \<Rightarrow> int" where
  "py_int x = (if 0 \<le> x then \<lfloor>x\<rfloor> else \<lceil>x\<rceil>)"

definition format_time :: "rat \<Rightarrow> exn + int" where
  "format_time seconds =
     (let n = py_int seconds; days = n div 86400
      in if days < - 999999999 \<or> 999999999 < days then Inl OverflowError else Inr n)"

text \<open>
  \<open>_update_progress\<close>: the byte count is added, the clock is read, and when at least
  half a second has passed since the last report a progress line is computed and
  printed. The resident-memory figure, which is read from the operating system and
  only printed, is left out. When the method raises, the process ends, so the
  object is not returned.
\<close>

definition update_progress :: "splitter \<Rightarrow> nat \<Rightarrow> world \<Rightarrow> (exn + splitter) \<times> world" where
  "update_progress self line_size w =
     (let self1 = self\<lparr>processed_size := processed_size self + line_size\<rparr>;
          (current_time, w1) = time_time w
      in if current_time - last_progress_time self1 \<ge> 1 / 2 then
           (if file_size self1 = 0 then (Inl ZeroDivisionError, w1)
            else
              (let progress = of_nat (processed_size self1) / of_nat (file_size self1) * 100;
                   elapsed_time = current_time - start_time self1;
                   speed = (if elapsed_time > 0
                            then of_nat (processed_size self1) / elapsed_time else 0);
                   remaining_size = int (file_size self1) - int (processed_size self1);
                   remaining_time = (if speed > 0 then of_int remaining_size / speed else 0)
               in case format_time remaining_time of
                    Inl e \<Rightarrow> (Inl e, w1)
                  | Inr eta \<Rightarrow>
                      (Inr (self1\<lparr>last_progress_time := current_time\<rparr>),
                       print (ProgressLine progress (processed_size self1) (file_size self1)
                                speed eta) w1)))
         else (Inr self1, w1))"

text \<open>
  \<open>_write_statements_to_file\<close>: the file name is built from the stem and the index
  plus one, and the statements are written joined by a blank line. A failure is
  reported and ends the process with status 1.
\<close>

definition output_name :: "pystr \<Rightarrow> nat \<Rightarrow> pystr" where
  "output_name input_filename file_index =
     input_filename @ py_str ''_part'' @ format_03d (file_index + 1) @ py_str ''.sql''"

definition write_statements_to_file ::
    "splitter \<Rightarrow> pystr list \<Rightarrow> pystr \<Rightarrow> nat \<Rightarrow> world \<Rightarrow> exn option \<times> world" where
  "write_statements_to_file self stmts input_filename file_index w =
     (let output_file = output_dir self @ [output_name input_filename file_index]
      in case open_write (fs w) output_file (join [10, 10] stmts) of
           Inr f' \<Rightarrow> (None, w\<lparr>fs := f', written := written w @ [(output_file, stmts)]\<rparr>)
         | Inl e \<Rightarrow> (Some (SystemExit 1), print (WriteError output_file e) w))"

text \<open>The local variables of \<open>split_sql\<close>.\<close>

record locals =
  statements :: "pystr list"
  current_statement :: "pystr list"
  current_file_index :: nat
  statement_count :: nat

text \<open>
  The body of the loop over the lines, after the progress update: a comment line is
  skipped; any other line is appended to the current statement; a line with a
  semicolon ends the statement, and a full batch is written at once.
\<close>

definition is_comment :: "pystr \<Rightarrow> bool" where
  "is_comment line \<longleftrightarrow>
     startswith (strip line) (py_str ''--'') \<or> startswith (strip line) (py_str ''/*'')"

definition process_line ::
    "splitter \<Rightarrow> pystr \<Rightarrow> pystr \<Rightarrow> locals \<Rightarrow> world \<Rightarrow> (exn + locals) \<times> world" where
  "process_line self input_filename line st w =
     (if is_comment line then (Inr st, w)
      else
        (let cur = current_statement st @ [line] in
         if semicolon \<in> set line then
           (let statement = strip (concat cur) in
            if statement \<noteq> [] then
              (let stmts = statements st @ [statement];
                   cnt = statement_count st + 1
               in if int (length stmts) \<ge> statements_per_file self then
                    (case write_statements_to_file self stmts input_filename
                            (current_file_index st) w of
                       (Some e, w') \<Rightarrow> (Inl e, w')
                     | (None, w') \<Rightarrow>
                         (Inr \<lparr>statements = [], current_statement = [],
                               current_file_index = current_file_index st + 1,
                               statement_count = cnt\<rparr>, w'))
                  else
                    (Inr \<lparr>statements = stmts, current_statement = [],
                          current_file_index = current_file_index st,
                          statement_count = cnt\<rparr>, w))
            else (Inr (st\<lparr>current_statement := []\<rparr>), w))
         else (Inr (st\<lparr>current_statement := cur\<rparr>), w)))"

fun lines_loop ::
    "splitter \<Rightarrow> pystr \<Rightarrow> pystr list \<Rightarrow> locals \<Rightarrow> world \<Rightarrow> (exn + splitter \<times> locals) \<times> world" where
  "lines_loop self input_filename [] st w = (Inr (self, st), w)"
| "lines_loop self input_filename (line # rest) st w =
     (case update_progress self (encoded_size line) w of
        (Inl e, w1) \<Rightarrow> (Inl e, w1)
      | (Inr self1, w1) \<Rightarrow>
          (case process_line self1 input_filename line st w1 of
             (Inl e, w2) \<Rightarrow> (Inl e, w2)
           | (Inr st2, w2) \<Rightarrow> lines_loop self1 input_filename rest st2 w2))"

text \<open>After the loop: the statement left in the buffer, then the batch left over.\<close>

definition last_statement :: "locals \<Rightarrow> locals" where
  "last_statement st =
     (if current_statement st \<noteq> [] then
        (let statement = strip (concat (current_statement st)) in
         if statement \<noteq> [] then
           st\<lparr>statements := statements st @ [statement],
              statement_count := statement_count st + 1\<rparr>
         else st)
      else st)"

definition write_remaining ::
    "splitter \<Rightarrow> pystr \<Rightarrow> locals \<Rightarrow> world \<Rightarrow> (exn + locals) \<times> world" where
  "write_remaining self input_filename st w =
     (if statements st \<noteq> [] then
        (case write_statements_to_file self (statements st) input_filename
                (current_file_index st) w of
           (Some e, w') \<Rightarrow> (Inl e, w')
         | (None, w') \<Rightarrow> (Inr (st\<lparr>current_file_index := current_file_index st + 1\<rparr>), w'))
      else (Inr st, w))"

text \<open>The closing statistics; the two computed figures can raise.\<close>

definition print_summary :: "splitter \<Rightarrow> locals \<Rightarrow> world \<Rightarrow> exn option \<times> world" where
  "print_summary self st w =
     (let (t, w1) = time_time w;
          total_time = t - start_time self;
          w2 = print Done w1
      in case format_time total_time of
           Inl e \<Rightarrow> (Some e, w2)
         | Inr d \<Rightarrow>
             (let w3 = print (TotalTime d) w2 in
              if total_time = 0 then (Some ZeroDivisionError, w3)
              else
                (None,
                 print (OutputDir (output_dir self))
                   (print (StatementCount (statement_count st))
                     (print (FileCount (current_file_index st))
                       (print (AverageSpeed (of_nat (file_size self) / total_time)) w3))))))"

text \<open>
  \<open>except Exception\<close> in \<open>split_sql\<close>: the error is printed and the process exits with
  status 1. A \<open>SystemExit\<close> raised by the writer passes through.
\<close>

definition on_exception :: "exn \<Rightarrow> world \<Rightarrow> exn option \<times> world" where
  "on_exception e w =
     (case e of
        SystemExit c \<Rightarrow> (Some (SystemExit c), w)
      | _ \<Rightarrow> (Some (SystemExit 1), print (ProcessingError e) w))"

text \<open>\<open>split_sql\<close>. The result is \<open>None\<close> when the method returns.\<close>

definition split_sql :: "splitter \<Rightarrow> world \<Rightarrow> exn option \<times> world" where
  "split_sql self w =
     (let input_filename = path_stem (input_file self)
      in case open_read (fs w) (input_file self) of
           Inl e \<Rightarrow> on_exception e w
         | Inr lines \<Rightarrow>
             (case lines_loop self input_filename lines
                     \<lparr>statements = [], current_statement = [], current_file_index = 0,
                      statement_count = 0\<rparr> w of
                (Inl e, w1) \<Rightarrow> on_exception e w1
              | (Inr (self1, st1), w1) \<Rightarrow>
                  (case write_remaining self1 input_filename (last_statement st1) w1 of
                     (Inl e, w2) \<Rightarrow> on_exception e w2
                   | (Inr st2, w2) \<Rightarrow>
                       (case print_summary self1 st2 w2 of
                          (Some e, w3) \<Rightarrow> on_exception e w3
                        | (None, w3) \<Rightarrow> (None, w3)))))"

text \<open>
  \<open>main\<close>, from the parsed arguments on: the splitter is built and run; an exception
  is printed and gives exit status 1. The result is the exit status.
\<close>

definition main :: "path \<Rightarrow> path \<Rightarrow> int \<Rightarrow> world \<Rightarrow> nat \<times> world" where
  "main inp out n w =
     (case SQLSplitter_init inp out n w of
        (Inl e, w1) \<Rightarrow> (1, print (MainError e) w1)
      | (Inr splitter, w1) \<Rightarrow>
          (case split_sql splitter w1 of
             (None, w2) \<Rightarrow> (0, w2)
           | (Some (SystemExit c), w2) \<Rightarrow> (c, w2)
           | (Some e, w2) \<Rightarrow> (1, print (MainError e) w2)))"


section \<open>The documented algorithm\<close>

text \<open>
  The statements of an input as the specification describes the single pass, with no
  batching and no files: a line whose trimmed form starts with \<open>--\<close> or \<open>/*\<close> is
  skipped; any other line is appended to the buffer; a line with a \<open>;\<close> ends the
  statement, which is the buffer joined and trimmed, kept if it is not empty; at the
  end of the input the buffer is trimmed and kept if it is not empty.
\<close>

fun spec_scan :: "pystr list \<Rightarrow> pystr list \<Rightarrow> pystr list" where
  "spec_scan buf [] = (if strip (concat buf) \<noteq> [] then [strip (concat buf)] else [])"
| "spec_scan buf (line # rest) =
     (if startswith (strip line) (py_str ''--'') \<or> startswith (strip line) (py_str ''/*'')
      then spec_scan buf rest
      else if semicolon \<in> set line then
        (if strip (concat (buf @ [line])) \<noteq> [] then [strip (concat (buf @ [line]))] else [])
          @ spec_scan [] rest
      else spec_scan (buf @ [line]) rest)"

definition spec_statements :: "pystr list \<Rightarrow> pystr list" where
  "spec_statements lines = spec_scan [] lines"

text \<open>
  The statements ended by a terminator, and the buffer left at the end of the input.
\<close>

fun emitted :: "pystr list \<Rightarrow> pystr list \<Rightarrow> pystr list" where
  "emitted buf [] = []"
| "emitted buf (line # rest) =
     (if is_comment line then emitted buf rest
      else if semicolon \<in> set line then
        (if strip (concat (buf @ [line])) \<noteq> [] then [strip (concat (buf @ [line]))] else [])
          @ emitted [] rest
      else emitted (buf @ [line]) rest)"

fun buffer_after :: "pystr list \<Rightarrow> pystr list \<Rightarrow> pystr list" where
  "buffer_after buf [] = buf"
| "buffer_after buf (line # rest) =
     (if is_comment line then buffer_after buf rest
      else if semicolon \<in> set line then buffer_after [] rest
      else buffer_after (buf @ [line]) rest)"

text \<open>
  Batching a list of statements: a batch is flushed as soon as it holds
  \<open>n\<close> statements (at once when \<open>n\<close> is not positive); \<open>pending\<close> is what is left.
\<close>

fun flushed :: "int \<Rightarrow> pystr list \<Rightarrow> pystr list \<Rightarrow> pystr list list" where
  "flushed n pend [] = []"
| "flushed n pend (s # ss) =
     (if int (length (pend @ [s])) \<ge> n then (pend @ [s]) # flushed n [] ss
      else flushed n (pend @ [s]) ss)"

fun pending :: "int \<Rightarrow> pystr list \<Rightarrow> pystr list \<Rightarrow> pystr list" where
  "pending n pend [] = pend"
| "pending n pend (s # ss) =
     (if int (length (pend @ [s])) \<ge> n then pending n [] ss
      else pending n (pend @ [s]) ss)"

definition batches :: "int \<Rightarrow> pystr list \<Rightarrow> pystr list list" where
  "batches n ss = flushed n [] ss @ (if pending n [] ss = [] then [] else [pending n [] ss])"

text \<open>
  The files that batches give, numbered from \<open>i\<close> on, and the file system after they
  have been written in order.
\<close>

fun named :: "path \<Rightarrow> pystr \<Rightarrow> nat \<Rightarrow> pystr list list \<Rightarrow> (path \<times> pystr list) list" where
  "named out stem i [] = []"
| "named out stem i (b # bs) = (out @ [output_name stem i], b) # named out stem (Suc i) bs"

definition put_file :: "filesystem \<Rightarrow> path \<times> pystr list \<Rightarrow> filesystem" where
  "put_file f pb = f(fst pb \<mapsto> File (join [10, 10] (snd pb)))"

text \<open>
  \<open>extends w w' fl\<close>: from \<open>w\<close> to \<open>w'\<close> exactly the files \<open>fl\<close> have been written,
  in this order, and the clock is the same.
\<close>

definition extends :: "world \<Rightarrow> world \<Rightarrow> (path \<times> pystr list) list \<Rightarrow> bool" where
  "extends w w' fl \<longleftrightarrow>
     written w' = written w @ fl \<and> fs w' = foldl put_file (fs w) fl \<and> now w' = now w"

text \<open>
  The files a whole run writes for an input with the given lines: the batches of the
  statements of the documented algorithm, numbered from zero. Then the local
  variables of \<open>split_sql\<close> as it starts.
\<close>

definition output_files :: "splitter \<Rightarrow> pystr list \<Rightarrow> (path \<times> pystr list) list" where
  "output_files self lines =
     named (output_dir self) (path_stem (input_file self)) 0
       (batches (statements_per_file self) (spec_statements lines))"

definition initial_locals :: locals where
  "initial_locals =
     \<lparr>statements = [], current_statement = [], current_file_index = 0, statement_count = 0\<rparr>"

text \<open>
  The statement left in the buffer at the end of the input, if it is not empty after
  trimming, and the file written after the loop for the batch left over.
\<close>

definition trailing :: "pystr list \<Rightarrow> pystr list" where
  "trailing lines =
     (if strip (concat (buffer_after [] lines)) \<noteq> []
      then [strip (concat (buffer_after [] lines))] else [])"

definition remaining :: "splitter \<Rightarrow> pystr \<Rightarrow> locals \<Rightarrow> (path \<times> pystr list) list" where
  "remaining self stem st =
     (if statements st = [] then []
      else [(output_dir self @ [output_name stem (current_file_index st)], statements st)])"

text \<open>The files written between two worlds.\<close>

definition new_files :: "world \<Rightarrow> world \<Rightarrow> (path \<times> pystr list) list" where
  "new_files w w' = drop (length (written w)) (written w')"

text \<open>
  A small world for examples: the input file \<open>in.sql\<close> with the given content, the
  output directory \<open>out\<close>, a clock that advances by ten milliseconds at each reading,
  and a splitter for that input, built at time zero.
\<close>

definition ex_world :: "pystr \<Rightarrow> world" where
  "ex_world content =
     \<lparr>fs = [[py_str ''out''] \<mapsto> Dir, [py_str ''in.sql''] \<mapsto> File content],
      now = (\<lambda>k. of_nat k / 100), ticks = 0, stdout = [], written = []\<rparr>"

definition ex_splitter :: "pystr \<Rightarrow> int \<Rightarrow> splitter" where
  "ex_splitter content n =
     \<lparr>input_file = [py_str ''in.sql''], output_dir = [py_str ''out''], statements_per_file = n,
      file_size = encoded_size content, start_time = 0, processed_size = 0,
      last_progress_time = 0\<rparr>"

text \<open>A splitter with its batch size replaced by one.\<close>

definition as_one :: "splitter \<Rightarrow> splitter" where
  "as_one self = self\<lparr>statements_per_file := 1\<rparr>"

text \<open>The example world with the clock standing at \<open>t\<close>.\<close>

definition late_world :: "pystr \<Rightarrow> rat \<Rightarrow> world" where
  "late_world content t = (ex_world content)\<lparr>now := (\<lambda>k. t)\<rparr>"

text \<open>The value of a string of decimal digits.\<close>

definition decimal_value :: "pystr \<Rightarrow> nat" where
  "decimal_value s = foldl (\<lambda>v c. 10 * v + (c - 48)) 0 s"

text \<open>
  The local variables after the loop has run over some lines, and the files the loop
  writes on the way, as functions of the lines.
\<close>

definition locals_after :: "int \<Rightarrow> locals \<Rightarrow> pystr list \<Rightarrow> locals" where
  "locals_after n st lines =
     \<lparr>statements = pending n (statements st) (emitted (current_statement st) lines),
      current_statement = buffer_after (current_statement st) lines,
      current_file_index =
        current_file_index st + length (flushed n (statements st) (emitted (current_statement st) lines)),
      statement_count = statement_count st + length (emitted (current_statement st) lines)\<rparr>"

definition files_of :: "splitter \<Rightarrow> pystr \<Rightarrow> locals \<Rightarrow> pystr list \<Rightarrow> (path \<times> pystr list) list" where
  "files_of self stem st lines =
     named (output_dir self) stem (current_file_index st)
       (flushed (statements_per_file self) (statements st) (emitted (current_statement st) lines))"


section \<open>Reading the output back\<close>

text \<open>
  The statements that a file holds are those that the documented single pass finds in
  its text, read as the program reads its input: in text mode, line by line.
  \<open>files_written\<close> are the paths the writer has written between two worlds, in the
  order of writing.
\<close>

definition recover :: "pystr \<Rightarrow> pystr list" where
  "recover t = spec_statements (text_lines t)"

definition file_statements :: "filesystem \<Rightarrow> path \<Rightarrow> pystr list" where
  "file_statements f p = (case f p of Some (File t) \<Rightarrow> recover t | _ \<Rightarrow> [])"

definition files_written :: "world \<Rightarrow> world \<Rightarrow> path list" where
  "files_written w w' = map fst (new_files w w')"

text \<open>
  White space only. Then what a scan of some lines gives: the statements ended by a
  terminator, and the trimmed text left in the buffer.
\<close>

definition blank :: "pystr \<Rightarrow> bool" where
  "blank s \<longleftrightarrow> (\<forall>c\<in>set s. isspace c)"

definition outcome :: "pystr list \<Rightarrow> pystr list \<Rightarrow> pystr list \<times> pystr" where
  "outcome buf lines = (emitted buf lines, strip (concat (buffer_after buf lines)))"

text \<open>
  The lines of a text: none is empty, a line break can only be the last character of
  a line, and every line but the last one ends with it.
\<close>

definition proper :: "pystr list \<Rightarrow> bool" where
  "proper ls \<longleftrightarrow>
     (\<forall>l\<in>set ls. l \<noteq> [] \<and> 10 \<notin> set (butlast l)) \<and> (\<forall>l\<in>set (butlast ls). last l = 10)"

text \<open>
  Two kinds of statement. A terminated one, written after white space and followed by
  white space, is found again by the scan as one statement ended by its terminator,
  and leaves nothing but white space in the buffer. An unterminated one is found
  again as the text left in the buffer. In a list of statements that can be read
  back, only the last one may be unterminated.
\<close>

definition terminated :: "pystr \<Rightarrow> bool" where
  "terminated s \<longleftrightarrow>
     (\<forall>buf tail. blank (concat buf) \<and> blank tail \<longrightarrow>
        outcome buf (split_keepends (s @ tail)) = ([s], []))"

definition unterminated :: "pystr \<Rightarrow> bool" where
  "unterminated s \<longleftrightarrow> s \<noteq> [] \<and>
     (\<forall>buf tail. blank (concat buf) \<and> blank tail \<longrightarrow>
        outcome buf (split_keepends (s @ tail)) = ([], s))"

definition stmts_ok :: "pystr list \<Rightarrow> bool" where
  "stmts_ok b \<longleftrightarrow>
     (\<forall>s\<in>set (butlast b). terminated s) \<and> (\<forall>s\<in>set b. terminated s \<or> unterminated s)"




section \<open>Trimming and scanning\<close>

lemma strip_eq_Nil_iff: "strip s = [] \<longleftrightarrow> (\<forall>c\<in>set s. isspace c)"
proof
  assume "strip s = []"
  then have all: "\<forall>x\<in>set (dropWhile isspace s). isspace x"
    by (simp add: strip_def dropWhile_eq_Nil_conv)
  have "dropWhile isspace s = []"
  proof (rule ccontr)
    assume ne: "dropWhile isspace s \<noteq> []"
    then have "\<not> isspace (hd (dropWhile isspace s))" by (rule hd_dropWhile)
    moreover have "hd (dropWhile isspace s) \<in> set (dropWhile isspace s)" using ne by simp
    ultimately show False using all by blast
  qed
  then show "\<forall>c\<in>set s. isspace c" by (simp add: dropWhile_eq_Nil_conv)
next
  assume "\<forall>c\<in>set s. isspace c"
  then show "strip s = []" by (auto simp: strip_def dest: set_dropWhileD)
qed

lemma strip_Nil [simp]: "strip [] = []"
  by (simp add: strip_def)

lemma not_isspace_semicolon [simp]: "\<not> isspace semicolon"
  by (simp add: isspace_def semicolon_def)

lemma strip_nonempty_semicolon: "semicolon \<in> set s \<Longrightarrow> strip s \<noteq> []"
  unfolding strip_eq_Nil_iff using not_isspace_semicolon by blast

lemma strip_concat_semicolon [simp]: "semicolon \<in> set line \<Longrightarrow> strip (concat buf @ line) \<noteq> []"
  by (rule strip_nonempty_semicolon) simp

lemma spec_scan_eq: "spec_scan buf lines = emitted buf lines @
    (if strip (concat (buffer_after buf lines)) \<noteq> [] then [strip (concat (buffer_after buf lines))] else [])"
  by (induction buf lines rule: spec_scan.induct) (simp_all add: is_comment_def)

lemma update_progress_world:
  "update_progress self k w = (r, w') \<Longrightarrow>
     fs w' = fs w \<and> written w' = written w \<and> now w' = now w \<and> ticks w' = Suc (ticks w)"
  by (auto simp: update_progress_def time_time_def print_def Let_def split: if_splits sum.splits)

lemma update_progress_self:
  "update_progress self k w = (Inr self1, w') \<Longrightarrow>
     statements_per_file self1 = statements_per_file self \<and> output_dir self1 = output_dir self \<and>
     input_file self1 = input_file self \<and> file_size self1 = file_size self \<and>
     start_time self1 = start_time self"
  by (auto simp: update_progress_def time_time_def print_def Let_def split: if_splits sum.splits)

lemma write_statements_result:
  "write_statements_to_file self stmts stem i w = (r, w') \<Longrightarrow>
     now w' = now w \<and> ticks w' = ticks w \<and>
     (case r of
        None \<Rightarrow> written w' = written w @ [(output_dir self @ [output_name stem i], stmts)] \<and>
                fs w' = put_file (fs w) (output_dir self @ [output_name stem i], stmts) \<and>
                stdout w' = stdout w
      | Some e \<Rightarrow> e = SystemExit 1 \<and> written w' = written w \<and> fs w' = fs w)"
  by (auto simp: write_statements_to_file_def put_file_def print_def open_write_def Let_def
      split: sum.splits option.splits node.splits)


lemma emitted_Cons: "emitted buf (l # ls) = emitted buf [l] @ emitted (buffer_after buf [l]) ls"
  by simp

lemma buffer_after_Cons: "buffer_after buf (l # ls) = buffer_after (buffer_after buf [l]) ls"
  by simp

lemma flushed_append:
  "flushed n p (xs @ ys) = flushed n p xs @ flushed n (pending n p xs) ys"
  by (induction xs arbitrary: p) simp_all

lemma pending_append: "pending n p (xs @ ys) = pending n (pending n p xs) ys"
  by (induction xs arbitrary: p) simp_all

lemma named_append:
  "named out stem i (xs @ ys) = named out stem i xs @ named out stem (i + length xs) ys"
  by (induction xs arbitrary: i) simp_all

lemma length_named [simp]: "length (named out stem i bs) = length bs"
  by (induction bs arbitrary: i) simp_all

lemma map_snd_named [simp]: "map snd (named out stem i bs) = bs"
  by (induction bs arbitrary: i) simp_all

lemma map_fst_named:
  "map fst (named out stem i bs) = map (\<lambda>j. out @ [output_name stem j]) [i..<i + length bs]"
proof (induction bs arbitrary: i)
  case Nil
  then show ?case by simp
next
  case (Cons b bs)
  have "[i..<i + length (b # bs)] = i # [Suc i..<Suc i + length bs]"
    by (simp add: upt_rec)
  with Cons show ?case by simp
qed

lemma locals_after_Nil [simp]: "locals_after n st [] = st"
  by (simp add: locals_after_def)

lemma locals_after_Cons:
  "locals_after n st (l # ls) = locals_after n (locals_after n st [l]) ls"
  unfolding locals_after_def
  by (simp only: emitted_Cons [of _ l ls] buffer_after_Cons [of _ l ls] flushed_append
        pending_append locals.simps length_append) simp

lemma files_of_Cons:
  "files_of self stem st (l # ls) =
     files_of self stem st [l] @ files_of self stem (locals_after (statements_per_file self) st [l]) ls"
  unfolding files_of_def locals_after_def
  by (simp only: emitted_Cons [of _ l ls] flushed_append named_append locals.simps)

lemma process_line_trace:
  assumes "process_line self stem line st w = (r, w')"
  shows "\<exists>k\<le>length (files_of self stem st [line]).
           written w' = written w @ take k (files_of self stem st [line]) \<and>
           fs w' = foldl put_file (fs w) (take k (files_of self stem st [line])) \<and>
           now w' = now w \<and> ticks w' = ticks w \<and>
           (\<forall>st1. r = Inr st1 \<longrightarrow>
              k = length (files_of self stem st [line]) \<and>
              st1 = locals_after (statements_per_file self) st [line])"
proof (cases "is_comment line")
  case True
  with assms show ?thesis
    by (cases st) (auto simp: process_line_def files_of_def locals_after_def)
next
  case nc: False
  show ?thesis
  proof (cases "semicolon \<in> set line")
    case False
    with nc assms show ?thesis
      by (auto simp: process_line_def files_of_def locals_after_def)
  next
    case semi: True
    let ?s = "strip (concat (current_statement st @ [line]))"
    have ne: "?s \<noteq> []" using semi by (intro strip_nonempty_semicolon) simp
    show ?thesis
    proof (cases "int (length (statements st @ [?s])) \<ge> statements_per_file self")
      case False
      with nc semi ne assms show ?thesis
        by (auto simp: process_line_def files_of_def locals_after_def Let_def)
    next
      case full: True
      obtain r1 w1 where wr: "write_statements_to_file self (statements st @ [?s]) stem
          (current_file_index st) w = (r1, w1)"
        by (cases "write_statements_to_file self (statements st @ [?s]) stem (current_file_index st) w")
      note res = write_statements_result [OF wr]
      have fo: "files_of self stem st [line] =
          [(output_dir self @ [output_name stem (current_file_index st)], statements st @ [?s])]"
        using nc semi ne full by (simp add: files_of_def)
      show ?thesis
      proof (cases r1)
        case None
        with nc semi ne full assms wr have r: "r = Inr \<lparr>statements = [], current_statement = [],
              current_file_index = current_file_index st + 1,
              statement_count = statement_count st + 1\<rparr>" and w': "w' = w1"
          by (auto simp: process_line_def Let_def)
        show ?thesis
          apply (rule exI [of _ 1])
          using res None nc semi ne full
          by (simp add: fo r w' locals_after_def)
      next
        case (Some e)
        with nc semi ne full assms wr have r: "r = Inl e" and w': "w' = w1"
          by (auto simp: process_line_def Let_def)
        show ?thesis
          apply (rule exI [of _ 0])
          using res Some by (simp add: fo r w')
      qed
    qed
  qed
qed


lemma strip_decompose:
  "\<exists>a b. x = a @ strip x @ b \<and> (\<forall>c\<in>set a. isspace c) \<and> (\<forall>c\<in>set b. isspace c)"
proof -
  let ?y = "dropWhile isspace x"
  let ?a = "takeWhile isspace x"
  let ?b = "rev (takeWhile isspace (rev ?y))"
  have "rev (dropWhile isspace (rev ?y)) @ rev (takeWhile isspace (rev ?y))
      = rev (takeWhile isspace (rev ?y) @ dropWhile isspace (rev ?y))"
    by (rule rev_append [symmetric])
  also have "\<dots> = rev (rev ?y)" by (simp only: takeWhile_dropWhile_id)
  also have "\<dots> = ?y" by (rule rev_rev_ident)
  finally have y: "?y = strip x @ ?b" unfolding strip_def by (rule sym)
  have "x = ?a @ ?y" by simp
  with y have "x = ?a @ strip x @ ?b" by simp
  moreover have "\<forall>c\<in>set ?a. isspace c" by (auto dest: set_takeWhileD)
  moreover have "\<forall>c\<in>set ?b. isspace c" by (auto dest: set_takeWhileD)
  ultimately show ?thesis by blast
qed


section \<open>The loop and the files it writes\<close>

lemma extends_refl: "extends w w []"
  by (simp add: extends_def)

lemma extends_trans: "extends w w1 xs \<Longrightarrow> extends w1 w2 ys \<Longrightarrow> extends w w2 (xs @ ys)"
  by (simp add: extends_def)

lemma update_progress_extends: "update_progress self k w = (r, w1) \<Longrightarrow> extends w w1 []"
  by (drule update_progress_world) (simp add: extends_def)

lemma files_of_cong:
  "output_dir self1 = output_dir self \<Longrightarrow> statements_per_file self1 = statements_per_file self \<Longrightarrow>
   files_of self1 stem st lines = files_of self stem st lines"
  by (simp add: files_of_def)

lemma process_line_any:
  assumes "process_line self stem line st w = (r, w')"
  shows "\<exists>k. extends w w' (take k (files_of self stem st [line]))"
proof -
  from process_line_trace [OF assms] obtain k where
    "written w' = written w @ take k (files_of self stem st [line]) \<and>
     fs w' = foldl put_file (fs w) (take k (files_of self stem st [line])) \<and>
     now w' = now w \<and> ticks w' = ticks w \<and>
     (\<forall>st1. r = Inr st1 \<longrightarrow>
              k = length (files_of self stem st [line]) \<and>
              st1 = locals_after (statements_per_file self) st [line])"
    by (elim exE conjE) (rule that, intro conjI)
  then have "extends w w' (take k (files_of self stem st [line]))"
    unfolding extends_def by (intro conjI) (elim conjE, assumption)+
  then show ?thesis ..
qed


lemma process_line_ok:
  assumes "process_line self stem line st w = (Inr st1, w')"
  shows "st1 = locals_after (statements_per_file self) st [line]"
    and "extends w w' (files_of self stem st [line])"
proof -
  from process_line_trace [OF assms] obtain k where
    k: "written w' = written w @ take k (files_of self stem st [line]) \<and>
     fs w' = foldl put_file (fs w) (take k (files_of self stem st [line])) \<and>
     now w' = now w \<and> ticks w' = ticks w \<and>
     (\<forall>st2. (Inr st1 :: exn + locals) = Inr st2 \<longrightarrow>
              k = length (files_of self stem st [line]) \<and>
              st2 = locals_after (statements_per_file self) st [line])"
    by (elim exE conjE) (rule that, intro conjI)
  then have "(Inr st1 :: exn + locals) = Inr st1 \<longrightarrow>
              k = length (files_of self stem st [line]) \<and>
              st1 = locals_after (statements_per_file self) st [line]"
    by (elim conjE allE)
  then have keq: "k = length (files_of self stem st [line])"
    and st1: "st1 = locals_after (statements_per_file self) st [line]" by simp_all
  show "st1 = locals_after (statements_per_file self) st [line]" by (rule st1)
  from k have "extends w w' (take k (files_of self stem st [line]))"
    unfolding extends_def by (intro conjI) (elim conjE, assumption)+
  then show "extends w w' (files_of self stem st [line])" by (simp add: keq)
qed

lemma lines_loop_ok:
  assumes "lines_loop self stem lines st w = (Inr (self1, st1), w')"
  shows "st1 = locals_after (statements_per_file self) st lines \<and>
         extends w w' (files_of self stem st lines) \<and>
         statements_per_file self1 = statements_per_file self \<and>
         output_dir self1 = output_dir self \<and>
         input_file self1 = input_file self \<and>
         file_size self1 = file_size self \<and>
         start_time self1 = start_time self"
  using assms
proof (induction lines arbitrary: self st w)
  case Nil
  then have "self1 = self" "st1 = st" "w' = w" by simp_all
  then show ?case by (simp add: files_of_def extends_refl)
next
  case (Cons l ls)
  obtain r1 w1 where up: "update_progress self (encoded_size l) w = (r1, w1)"
    by (cases "update_progress self (encoded_size l) w")
  from Cons.prems up obtain self2 where r1: "r1 = Inr self2"
    by (cases r1) simp_all
  note ups = update_progress_self [OF up [unfolded r1]]
  from ups have n2: "statements_per_file self2 = statements_per_file self"
    and o2: "output_dir self2 = output_dir self" by simp_all
  obtain r2 w2 where pl: "process_line self2 stem l st w1 = (r2, w2)"
    by (cases "process_line self2 stem l st w1")
  from Cons.prems up r1 pl obtain st2 where r2: "r2 = Inr st2"
    by (cases r2) simp_all
  from Cons.prems up r1 pl r2 have rest: "lines_loop self2 stem ls st2 w2 = (Inr (self1, st1), w')"
    by simp
  note p = process_line_ok [OF pl [unfolded r2], unfolded n2 files_of_cong [OF o2 n2]]
  note ih = Cons.IH [OF rest, unfolded n2 files_of_cong [OF o2 n2]]
  have e1: "extends w w1 []" using up by (rule update_progress_extends)
  have e2: "extends w1 w2 (files_of self stem st [l])" by (rule p(2))
  have e3: "extends w2 w' (files_of self stem st2 ls)" using ih by (rule conjunct1 [OF conjunct2])
  have "extends w w' ([] @ files_of self stem st [l] @ files_of self stem st2 ls)"
    by (intro extends_trans [OF e1] extends_trans [OF e2] e3)
  then have e: "extends w w' (files_of self stem st (l # ls))"
    by (simp add: files_of_Cons [of self stem st l ls] p(1))
  have s: "st1 = locals_after (statements_per_file self) st (l # ls)"
    using ih by (simp add: locals_after_Cons [of _ st l ls] p(1))
  from ih ups e s show ?case by simp
qed


lemma take_min_append: "take (min k (length xs)) (xs @ ys) = take k xs"
  by (cases "k \<le> length xs") (simp_all add: min_def)

lemma lines_loop_any:
  assumes "lines_loop self stem lines st w = (r, w')"
  shows "\<exists>k. extends w w' (take k (files_of self stem st lines))"
  using assms
proof (induction lines arbitrary: self st w)
  case Nil
  then have "w' = w" by simp
  then show ?case by (simp add: files_of_def extends_refl)
next
  case (Cons l ls)
  let ?F1 = "files_of self stem st [l]"
  obtain r1 w1 where up: "update_progress self (encoded_size l) w = (r1, w1)"
    by (cases "update_progress self (encoded_size l) w")
  have e1: "extends w w1 []" using up by (rule update_progress_extends)
  show ?case
  proof (cases r1)
    case (Inl e)
    with Cons.prems up have "w' = w1" by simp
    with e1 have "extends w w' (take 0 (files_of self stem st (l # ls)))" by simp
    then show ?thesis ..
  next
    case (Inr self2)
    note ups = update_progress_self [OF up [unfolded Inr]]
    from ups have n2: "statements_per_file self2 = statements_per_file self"
      and o2: "output_dir self2 = output_dir self" by simp_all
    obtain r2 w2 where pl: "process_line self2 stem l st w1 = (r2, w2)"
      by (cases "process_line self2 stem l st w1")
    show ?thesis
    proof (cases r2)
      case (Inl e)
      with Cons.prems up Inr pl have w': "w' = w2" by simp
      from process_line_any [OF pl, unfolded files_of_cong [OF o2 n2]]
      obtain k where "extends w1 w2 (take k ?F1)" ..
      with e1 have "extends w w2 ([] @ take k ?F1)" by (rule extends_trans)
      moreover have "take (min k (length ?F1)) (files_of self stem st (l # ls)) = take k ?F1"
        unfolding files_of_Cons [of self stem st l ls] by (rule take_min_append)
      ultimately have "extends w w' (take (min k (length ?F1)) (files_of self stem st (l # ls)))"
        by (simp add: w')
      then show ?thesis ..
    next
      case st2: (Inr st2)
      from Cons.prems up Inr pl st2 have rest: "lines_loop self2 stem ls st2 w2 = (r, w')"
        by simp
      note p = process_line_ok [OF pl [unfolded st2], unfolded n2 files_of_cong [OF o2 n2]]
      from Cons.IH [OF rest, unfolded files_of_cong [OF o2 n2]]
      obtain k where e3: "extends w2 w' (take k (files_of self stem st2 ls))" ..
      have "extends w w' ([] @ ?F1 @ take k (files_of self stem st2 ls))"
        by (intro extends_trans [OF e1] extends_trans [OF p(2)] e3)
      then have "extends w w' (take (length ?F1 + k) (files_of self stem st (l # ls)))"
        by (simp add: files_of_Cons [of self stem st l ls] p(1))
      then show ?thesis ..
    qed
  qed
qed

lemma print_extends: "extends w (print m w) []"
  by (simp add: extends_def print_def)

lemma on_exception_extends: "on_exception e w = (r, w') \<Longrightarrow> extends w w' []"
  by (cases e) (auto simp: on_exception_def extends_def print_def)

lemma on_exception_Some: "on_exception e w = (r, w') \<Longrightarrow> r \<noteq> None"
  by (cases e) (auto simp: on_exception_def)

lemma print_summary_extends: "print_summary self st w = (r, w') \<Longrightarrow> extends w w' []"
  by (auto simp: print_summary_def extends_def print_def time_time_def Let_def
      split: sum.splits if_splits)

lemma flushed_snoc:
  "flushed n p (ss @ [s]) @ (if pending n p (ss @ [s]) = [] then [] else [pending n p (ss @ [s])])
     = flushed n p ss @ [pending n p ss @ [s]]"
  by (simp add: flushed_append pending_append)


lemma split_sql_initial:
  "split_sql self w =
     (case open_read (fs w) (input_file self) of
        Inl e \<Rightarrow> on_exception e w
      | Inr lines \<Rightarrow>
          (case lines_loop self (path_stem (input_file self)) lines initial_locals w of
             (Inl e, w1) \<Rightarrow> on_exception e w1
           | (Inr (self1, st1), w1) \<Rightarrow>
               (case write_remaining self1 (path_stem (input_file self)) (last_statement st1) w1 of
                  (Inl e, w2) \<Rightarrow> on_exception e w2
                | (Inr st2, w2) \<Rightarrow>
                    (case print_summary self1 st2 w2 of
                       (Some e, w3) \<Rightarrow> on_exception e w3
                     | (None, w3) \<Rightarrow> (None, w3)))))"
  unfolding split_sql_def initial_locals_def Let_def by (rule refl)

lemma write_remaining_any:
  "write_remaining self stem st w = (r, w') \<Longrightarrow> \<exists>k. extends w w' (take k (remaining self stem st))"
proof (cases "statements st = []")
  case True
  assume "write_remaining self stem st w = (r, w')"
  with True have "w' = w" by (simp add: write_remaining_def)
  then have "extends w w' (take 0 (remaining self stem st))" by (simp add: extends_refl)
  then show ?thesis ..
next
  case False
  assume a: "write_remaining self stem st w = (r, w')"
  obtain r1 w1 where wr: "write_statements_to_file self (statements st) stem (current_file_index st) w = (r1, w1)"
    by (cases "write_statements_to_file self (statements st) stem (current_file_index st) w")
  note res = write_statements_result [OF wr]
  from a False wr have w': "w' = w1" by (cases r1) (simp_all add: write_remaining_def)
  show ?thesis
  proof (cases r1)
    case None
    with res have "extends w w' (take 1 (remaining self stem st))"
      using False by (simp add: extends_def remaining_def w')
    then show ?thesis ..
  next
    case (Some e)
    with res have "extends w w' (take 0 (remaining self stem st))"
      by (simp add: extends_def w')
    then show ?thesis ..
  qed
qed

lemma write_remaining_ok:
  assumes "write_remaining self stem st w = (Inr st', w')"
  shows "extends w w' (remaining self stem st)"
proof (cases "statements st = []")
  case True
  with assms have "w' = w" by (simp add: write_remaining_def)
  with True show ?thesis by (simp add: extends_refl remaining_def)
next
  case False
  obtain r1 w1 where wr: "write_statements_to_file self (statements st) stem (current_file_index st) w = (r1, w1)"
    by (cases "write_statements_to_file self (statements st) stem (current_file_index st) w")
  note res = write_statements_result [OF wr]
  from assms False wr have "r1 = None \<and> w' = w1" by (cases r1) (simp_all add: write_remaining_def)
  with res False show ?thesis by (simp add: extends_def remaining_def)
qed


lemma spec_statements_eq: "spec_statements lines = emitted [] lines @ trailing lines"
  by (simp add: spec_statements_def spec_scan_eq trailing_def)

lemma last_statement_eq:
  "last_statement st =
     (if strip (concat (current_statement st)) \<noteq> []
      then st\<lparr>statements := statements st @ [strip (concat (current_statement st))],
              statement_count := statement_count st + 1\<rparr>
      else st)"
  by (cases "current_statement st = []") (simp_all add: last_statement_def Let_def)

lemma batches_trailing:
  "batches n (em @ trailing lines) =
     flushed n [] em @
       (if pending n [] em @ trailing lines = [] then [] else [pending n [] em @ trailing lines])"
proof (cases "trailing lines = []")
  case True
  then show ?thesis by (simp add: batches_def)
next
  case False
  then obtain s where t: "trailing lines = [s]" by (auto simp: trailing_def split: if_splits)
  show ?thesis unfolding t batches_def by (simp add: flushed_snoc)
qed

lemma run_files:
  "files_of self stem initial_locals lines @
     remaining self stem (last_statement (locals_after (statements_per_file self) initial_locals lines))
   = named (output_dir self) stem 0 (batches (statements_per_file self) (spec_statements lines))"
proof -
  let ?n = "statements_per_file self"
  let ?em = "emitted [] lines"
  let ?st = "last_statement (locals_after ?n initial_locals lines)"
  have st: "statements ?st = pending ?n [] ?em @ trailing lines"
    by (simp add: last_statement_eq locals_after_def initial_locals_def trailing_def)
  have idx: "current_file_index ?st = length (flushed ?n [] ?em)"
    by (simp add: last_statement_eq locals_after_def initial_locals_def)
  have fo: "files_of self stem initial_locals lines = named (output_dir self) stem 0 (flushed ?n [] ?em)"
    by (simp add: files_of_def initial_locals_def)
  have rem: "remaining self stem ?st =
      named (output_dir self) stem (0 + length (flushed ?n [] ?em))
        (if pending ?n [] ?em @ trailing lines = [] then [] else [pending ?n [] ?em @ trailing lines])"
    unfolding remaining_def st idx by simp
  show ?thesis
    unfolding fo rem spec_statements_eq batches_trailing named_append [symmetric] ..
qed

lemma split_sql_unreadable:
  assumes "split_sql self w = (r, w')" and "open_read (fs w) (input_file self) = Inl e"
  shows "extends w w' []" and "r \<noteq> None"
  using assms by (simp_all add: split_sql_initial on_exception_extends on_exception_Some)

lemma split_sql_any:
  assumes run: "split_sql self w = (r, w')"
    and rd: "open_read (fs w) (input_file self) = Inr lines"
  shows "\<exists>k. extends w w' (take k (output_files self lines))"
proof -
  let ?stem = "path_stem (input_file self)"
  let ?n = "statements_per_file self"
  let ?F = "files_of self ?stem initial_locals lines"
  let ?st = "last_statement (locals_after ?n initial_locals lines)"
  have all: "output_files self lines = ?F @ remaining self ?stem ?st"
    by (simp add: output_files_def run_files)
  obtain r1 w1 where loop: "lines_loop self ?stem lines initial_locals w = (r1, w1)"
    by (cases "lines_loop self ?stem lines initial_locals w")
  show ?thesis
  proof (cases r1)
    case (Inl e)
    with run rd loop have "on_exception e w1 = (r, w')" by (simp add: split_sql_initial)
    then have e2: "extends w1 w' []" by (rule on_exception_extends)
    from lines_loop_any [OF loop] obtain k where "extends w w1 (take k ?F)" ..
    from extends_trans [OF this e2]
    have "extends w w' (take (min k (length ?F)) (output_files self lines))"
      by (simp add: all take_min_append del: take_append)
    then show ?thesis ..
  next
    case (Inr p)
    obtain self1 st1 where p: "p = (self1, st1)" by (cases p)
    note ok = lines_loop_ok [OF loop [unfolded Inr p]]
    from ok have st1: "st1 = locals_after ?n initial_locals lines"
      and e1: "extends w w1 ?F"
      and o1: "output_dir self1 = output_dir self" by simp_all
    have rem1: "remaining self1 ?stem (last_statement st1) = remaining self ?stem ?st"
      by (simp add: remaining_def o1 st1)
    obtain r2 w2 where wr: "write_remaining self1 ?stem (last_statement st1) w1 = (r2, w2)"
      by (cases "write_remaining self1 ?stem (last_statement st1) w1")
    show ?thesis
    proof (cases r2)
      case (Inl e)
      with run rd loop Inr p wr have "on_exception e w2 = (r, w')"
        by (simp add: split_sql_initial)
      then have e3: "extends w2 w' []" by (rule on_exception_extends)
      from write_remaining_any [OF wr, unfolded rem1]
      obtain k where e2: "extends w1 w2 (take k (remaining self ?stem ?st))" ..
      from extends_trans [OF extends_trans [OF e1 e2] e3]
      have "extends w w' (take (length ?F + k) (output_files self lines))"
        by (simp add: all)
      then show ?thesis ..
    next
      case st2: (Inr st2)
      note e2 = write_remaining_ok [OF wr [unfolded st2], unfolded rem1]
      obtain r3 w3 where ps: "print_summary self1 st2 w2 = (r3, w3)"
        by (cases "print_summary self1 st2 w2")
      note e3 = print_summary_extends [OF ps]
      have e4: "extends w3 w' []"
      proof (cases r3)
        case None
        with run rd loop Inr p wr st2 ps have "w' = w3" by (simp add: split_sql_initial)
        then show ?thesis by (simp add: extends_refl)
      next
        case (Some e)
        with run rd loop Inr p wr st2 ps have "on_exception e w3 = (r, w')"
          by (simp add: split_sql_initial)
        then show ?thesis by (rule on_exception_extends)
      qed
      from extends_trans [OF extends_trans [OF extends_trans [OF e1 e2] e3] e4]
      have "extends w w' (take (length (output_files self lines)) (output_files self lines))"
        by (simp add: all)
      then show ?thesis ..
    qed
  qed
qed

lemma split_sql_ok:
  assumes run: "split_sql self w = (None, w')"
  shows "\<exists>lines. open_read (fs w) (input_file self) = Inr lines \<and>
           extends w w' (output_files self lines)"
proof (cases "open_read (fs w) (input_file self)")
  case (Inl e)
  from split_sql_unreadable(2) [OF run Inl] show ?thesis by simp
next
  case rd: (Inr lines)
  let ?stem = "path_stem (input_file self)"
  let ?n = "statements_per_file self"
  let ?F = "files_of self ?stem initial_locals lines"
  let ?st = "last_statement (locals_after ?n initial_locals lines)"
  have all: "output_files self lines = ?F @ remaining self ?stem ?st"
    by (simp add: output_files_def run_files)
  obtain r1 w1 where loop: "lines_loop self ?stem lines initial_locals w = (r1, w1)"
    by (cases "lines_loop self ?stem lines initial_locals w")
  have "\<exists>p. r1 = Inr p"
  proof (cases r1)
    case (Inl e)
    with run rd loop have "on_exception e w1 = (None, w')" by (simp add: split_sql_initial)
    from on_exception_Some [OF this] show ?thesis by simp
  qed simp
  then obtain self1 st1 where r1: "r1 = Inr (self1, st1)" by auto
  note ok = lines_loop_ok [OF loop [unfolded r1]]
  from ok have st1: "st1 = locals_after ?n initial_locals lines"
    and e1: "extends w w1 ?F"
    and o1: "output_dir self1 = output_dir self" by simp_all
  have rem1: "remaining self1 ?stem (last_statement st1) = remaining self ?stem ?st"
    by (simp add: remaining_def o1 st1)
  obtain r2 w2 where wr: "write_remaining self1 ?stem (last_statement st1) w1 = (r2, w2)"
    by (cases "write_remaining self1 ?stem (last_statement st1) w1")
  have "\<exists>st2. r2 = Inr st2"
  proof (cases r2)
    case (Inl e)
    with run rd loop r1 wr have "on_exception e w2 = (None, w')" by (simp add: split_sql_initial)
    from on_exception_Some [OF this] show ?thesis by simp
  qed simp
  then obtain st2 where r2: "r2 = Inr st2" ..
  note e2 = write_remaining_ok [OF wr [unfolded r2], unfolded rem1]
  obtain r3 w3 where ps: "print_summary self1 st2 w2 = (r3, w3)"
    by (cases "print_summary self1 st2 w2")
  note e3 = print_summary_extends [OF ps]
  have "w' = w3"
  proof (cases r3)
    case None
    with run rd loop r1 wr r2 ps show ?thesis by (simp add: split_sql_initial)
  next
    case (Some e)
    with run rd loop r1 wr r2 ps have "on_exception e w3 = (None, w')"
      by (simp add: split_sql_initial)
    from on_exception_Some [OF this] show ?thesis by simp
  qed
  with extends_trans [OF extends_trans [OF e1 e2] e3]
  have "extends w w' (output_files self lines)" by (simp add: all)
  with rd show ?thesis by simp
qed



section \<open>Batches\<close>

lemma new_files_extends: "extends w w' fl \<Longrightarrow> new_files w w' = fl"
  by (simp add: extends_def new_files_def)

lemma concat_flushed: "concat (flushed n p ss) @ pending n p ss = p @ ss"
  by (induction ss arbitrary: p) simp_all

lemma concat_batches: "concat (batches n ss) = ss"
  using concat_flushed [of n "[]" ss] by (cases "pending n [] ss = []") (simp_all add: batches_def)

lemma flushed_sizes:
  "0 < n \<Longrightarrow> int (length p) < n \<Longrightarrow>
     (\<forall>b\<in>set (flushed n p ss). int (length b) = n) \<and> int (length (pending n p ss)) < n"
proof (induction ss arbitrary: p)
  case Nil
  then show ?case by simp
next
  case (Cons s ss)
  show ?case
  proof (cases "int (length (p @ [s])) \<ge> n")
    case True
    with Cons.prems have "int (length (p @ [s])) = n" by simp
    with True Cons.IH [of "[]"] Cons.prems show ?thesis by simp
  next
    case False
    with Cons.IH [of "p @ [s]"] Cons.prems show ?thesis by simp
  qed
qed

lemma batches_sizes:
  assumes "0 < n"
  shows "\<forall>i. Suc i < length (batches n ss) \<longrightarrow> int (length (batches n ss ! i)) = n"
    and "\<forall>b\<in>set (batches n ss). 1 \<le> length b \<and> int (length b) \<le> n"
proof -
  from flushed_sizes [OF assms, of "[]" ss] assms
  have fl: "\<forall>b\<in>set (flushed n [] ss). int (length b) = n"
    and pe: "int (length (pending n [] ss)) < n" by simp_all
  show "\<forall>i. Suc i < length (batches n ss) \<longrightarrow> int (length (batches n ss ! i)) = n"
  proof (intro allI impI)
    fix i assume "Suc i < length (batches n ss)"
    then have i: "i < length (flushed n [] ss)"
      by (simp add: batches_def split: if_splits)
    then have "batches n ss ! i = flushed n [] ss ! i"
      by (simp add: batches_def nth_append)
    with fl i show "int (length (batches n ss ! i)) = n" by simp
  qed
  show "\<forall>b\<in>set (batches n ss). 1 \<le> length b \<and> int (length b) \<le> n"
  proof
    fix b assume "b \<in> set (batches n ss)"
    then consider "b \<in> set (flushed n [] ss)" | "b = pending n [] ss" "pending n [] ss \<noteq> []"
      by (auto simp: batches_def split: if_splits)
    then show "1 \<le> length b \<and> int (length b) \<le> n"
    proof cases
      case 1
      with fl have "int (length b) = n" by blast
      with assms show ?thesis by linarith
    next
      case 2
      from 2(2) have "1 \<le> length (pending n [] ss)"
        by (cases "pending n [] ss") simp_all
      with pe show ?thesis unfolding 2(1) by linarith
    qed
  qed
qed

lemma batches_Nil [simp]: "batches n [] = []"
  by (simp add: batches_def)

lemma take_sizes:
  assumes "\<forall>i. Suc i < length xs \<longrightarrow> P (xs ! i)"
  shows "\<forall>i. Suc i < length (take k xs) \<longrightarrow> P (take k xs ! i)"
  using assms by simp

lemma named_nth:
  "i < length bs \<Longrightarrow> named out stem j bs ! i = (out @ [output_name stem (j + i)], bs ! i)"
proof (induction bs arbitrary: i j)
  case Nil
  then show ?case by simp
next
  case (Cons b bs)
  then show ?case by (cases i) simp_all
qed

lemma set_named_snd: "pb \<in> set (named out stem j bs) \<Longrightarrow> snd pb \<in> set bs"
  using map_snd_named [of out stem j bs] by (metis image_eqI set_map)


lemma prefix_concat_take: "prefix (concat (take k xs)) (concat xs)"
proof -
  have "concat xs = concat (take k xs) @ concat (drop k xs)"
    by (metis append_take_drop_id concat_append)
  then show ?thesis by (simp add: prefix_def)
qed

lemma spec_scan_nonempty: "[] \<notin> set (spec_scan buf lines)"
  by (induction buf lines rule: spec_scan.induct) (auto dest: sym)

lemma extends_fs: "extends w w' fl \<Longrightarrow> fs w' = foldl put_file (fs w) fl"
  by (simp add: extends_def)


section \<open>File names\<close>

lemma decimal_value_snoc: "decimal_value (s @ [c]) = 10 * decimal_value s + (c - 48)"
  by (simp add: decimal_value_def)

lemma decimal_value_digits: "decimal_value (digits n) = n"
proof (induction n rule: digits.induct)
  case (1 n)
  show ?case
  proof (cases "n < 10")
    case True
    then show ?thesis by (simp add: digits.simps [of n] decimal_value_def)
  next
    case False
    with 1 have "decimal_value (digits (n div 10)) = n div 10" by simp
    with False show ?thesis
      by (simp add: digits.simps [of n] decimal_value_snoc)
  qed
qed

lemma decimal_value_zeros: "decimal_value (replicate k 48 @ s) = decimal_value s"
  by (induction k) (simp_all add: decimal_value_def)

lemma decimal_value_format: "decimal_value (format_03d n) = n"
  by (simp add: format_03d_def decimal_value_zeros decimal_value_digits)

lemma length_format: "length (format_03d n) = max 3 (length (digits n))"
  by (simp add: format_03d_def)

lemma length_digits_le: "n < 10 ^ Suc m \<Longrightarrow> length (digits n) \<le> Suc m"
proof (induction m arbitrary: n)
  case 0
  then show ?case by (simp add: digits.simps [of n])
next
  case (Suc m)
  show ?case
  proof (cases "n < 10")
    case True
    then show ?thesis by (simp add: digits.simps [of n])
  next
    case False
    from Suc.prems have "n div 10 < 10 ^ Suc m" by (simp add: less_mult_imp_div_less)
    from Suc.IH [OF this] False show ?thesis by (simp add: digits.simps [of n])
  qed
qed

lemma length_digits_gt: "10 ^ m \<le> n \<Longrightarrow> m < length (digits n)"
proof (induction m arbitrary: n)
  case 0
  then show ?case by (cases "n < 10") (simp_all add: digits.simps [of n])
next
  case (Suc m)
  have "(1::nat) \<le> 10 ^ m" by simp
  then have "(10::nat) \<le> 10 ^ Suc m" by simp
  with Suc.prems have ge: "\<not> n < 10" by linarith
  from Suc.prems have "10 ^ m \<le> n div 10" by (simp add: less_eq_div_iff_mult_less_eq)
  from Suc.IH [OF this] ge show ?case by (simp add: digits.simps [of n])
qed

lemma format_03d_inj: "format_03d a = format_03d b \<Longrightarrow> a = b"
  using decimal_value_format by metis

lemma output_name_inj: "output_name stem i = output_name stem j \<Longrightarrow> i = j"
  using format_03d_inj [of "i + 1" "j + 1"] by (simp add: output_name_def)

lemma distinct_named: "distinct (map fst (named out stem i bs))"
proof -
  have "inj_on (\<lambda>j. out @ [output_name stem j]) (set [i..<i + length bs])"
    by (rule inj_onI) (simp, drule output_name_inj)
  then show ?thesis by (simp add: map_fst_named distinct_map)
qed


lemma take_upt_min: "take k [0..<n] = [0..<min k n]"
  by (cases "k \<le> n") (simp_all add: min_def)


section \<open>Reading the files back\<close>

subsection \<open>Trimming white space\<close>

lemma blank_Nil [simp]: "blank []" by (simp add: blank_def)
lemma blank_Cons [simp]: "blank (c # cs) \<longleftrightarrow> isspace c \<and> blank cs" by (simp add: blank_def)
lemma blank_append [simp]: "blank (a @ b) \<longleftrightarrow> blank a \<and> blank b" by (auto simp: blank_def)

lemma isspace_10 [simp]: "isspace 10" by (simp add: isspace_def)

lemma blank_dropWhile: "blank a \<longleftrightarrow> dropWhile isspace a = []"
  by (simp add: blank_def dropWhile_eq_Nil_conv)

lemma strip_blank: "blank s \<Longrightarrow> strip s = []"
  by (simp add: strip_eq_Nil_iff blank_def)

lemma strip_lead: "isspace x \<Longrightarrow> strip (x # w) = strip w"
  by (simp add: strip_def)

lemma lstrip_cong:
  "dropWhile isspace u = dropWhile isspace v \<Longrightarrow>
   dropWhile isspace (u @ l) = dropWhile isspace (v @ l)"
proof -
  assume a: "dropWhile isspace u = dropWhile isspace v"
  have "(dropWhile isspace u = []) = (dropWhile isspace v = [])" using a by (simp only:)
  then have "(\<forall>x\<in>set u. isspace x) \<longleftrightarrow> (\<forall>x\<in>set v. isspace x)"
    by (simp only: dropWhile_eq_Nil_conv)
  with a show ?thesis by (simp only: dropWhile_append)
qed

lemma strip_cong:
  "dropWhile isspace u = dropWhile isspace v \<Longrightarrow> strip (u @ l) = strip (v @ l)"
proof -
  assume "dropWhile isspace u = dropWhile isspace v"
  from lstrip_cong [OF this, of l] show ?thesis unfolding strip_def by (simp only:)
qed

lemma strip_blank_lead: "blank a \<Longrightarrow> strip (a @ w) = strip w"
  using strip_cong [of a "[]" w] by (simp add: blank_dropWhile)

lemma strip_trail: "isspace x \<Longrightarrow> strip (w @ [x]) = strip w"
proof (cases "blank w")
  case True
  assume "isspace x"
  with True show ?thesis by (simp add: strip_blank)
next
  case False
  assume x: "isspace x"
  from False have "dropWhile isspace (w @ [x]) = dropWhile isspace w @ [x]"
    by (simp add: dropWhile_append blank_def)
  with x show ?thesis by (simp add: strip_def)
qed

lemma strip_blank_trail: "blank c \<Longrightarrow> strip (w @ c) = strip w"
proof (induction c rule: rev_induct)
  case Nil
  then show ?case by simp
next
  case (snoc x c)
  then have "strip ((w @ c) @ [x]) = strip (w @ c)" by (intro strip_trail) simp
  with snoc show ?case by simp
qed


subsection \<open>Splitting into lines\<close>

lemma split_keepends_line:
  "10 \<notin> set p \<Longrightarrow> split_keepends (p @ 10 # y) = (p @ [10]) # split_keepends y"
  by (induction p) auto

lemma split_keepends_part: "10 \<notin> set p \<Longrightarrow> p \<noteq> [] \<Longrightarrow> split_keepends p = [p]"
proof (induction p)
  case Nil
  then show ?case by simp
next
  case (Cons c p)
  then show ?case by (cases "p = []") auto
qed

lemma concat_split_keepends: "concat (split_keepends x) = x"
  by (induction x rule: split_keepends.induct) (auto split: list.splits)

subsection \<open>White space around a text\<close>

lemma emitted_append: "emitted B (X @ Y) = emitted B X @ emitted (buffer_after B X) Y"
  by (induction B X rule: emitted.induct) simp_all

lemma buffer_after_append: "buffer_after B (X @ Y) = buffer_after (buffer_after B X) Y"
  by (induction B X rule: buffer_after.induct) simp_all

lemma outcome_Nil: "outcome B [] = ([], strip (concat B))"
  by (simp add: outcome_def)

lemma outcome_Cons:
  "outcome B (l # L) =
     (if is_comment l then outcome B L
      else if semicolon \<in> set l
        then (strip (concat B @ l) # fst (outcome [] L), snd (outcome [] L))
      else outcome (B @ [l]) L)"
  by (simp add: outcome_def)

lemma outcome_append:
  "outcome B (X @ Y) =
     (fst (outcome B X) @ fst (outcome (buffer_after B X) Y),
      snd (outcome (buffer_after B X) Y))"
  by (simp add: outcome_def emitted_append buffer_after_append)

lemma is_comment_lead: "isspace x \<Longrightarrow> is_comment (x # l) = is_comment l"
  by (simp add: is_comment_def strip_lead)

lemma is_comment_trail: "blank c \<Longrightarrow> is_comment (l @ c) = is_comment l"
  by (simp add: is_comment_def strip_blank_trail)

lemma blank_not_comment: "blank l \<Longrightarrow> \<not> is_comment l"
  by (simp add: is_comment_def strip_blank startswith_def py_str_def)

lemma blank_no_semicolon: "blank l \<Longrightarrow> semicolon \<notin> set l"
  using not_isspace_semicolon by (auto simp: blank_def)

lemma outcome_cong:
  "dropWhile isspace (concat B) = dropWhile isspace (concat B') \<Longrightarrow> outcome B L = outcome B' L"
proof (induction L arbitrary: B B')
  case Nil
  from strip_cong [OF Nil, of "[]"] show ?case by (simp add: outcome_Nil)
next
  case (Cons l L)
  from strip_cong [OF Cons.prems, of l]
  have s: "strip (concat B @ l) = strip (concat B' @ l)" .
  from lstrip_cong [OF Cons.prems, of l]
  have "dropWhile isspace (concat (B @ [l])) = dropWhile isspace (concat (B' @ [l]))" by simp
  then have a: "outcome (B @ [l]) L = outcome (B' @ [l]) L" by (rule Cons.IH)
  have b: "outcome B L = outcome B' L" using Cons.prems by (rule Cons.IH)
  show ?case unfolding outcome_Cons s a b ..
qed

lemma outcome_blank_buffer:
  assumes "blank (concat B)" and "blank (concat B')"
  shows "outcome B L = outcome B' L"
proof (rule outcome_cong)
  from assms have "dropWhile isspace (concat B) = []" and "dropWhile isspace (concat B') = []"
    unfolding blank_dropWhile by - assumption+
  then show "dropWhile isspace (concat B) = dropWhile isspace (concat B')" by (simp only:)
qed

lemma outcome_blank_lines: "blank (concat L) \<Longrightarrow> outcome B L = ([], strip (concat B))"
proof (induction L arbitrary: B)
  case Nil
  then show ?case by (simp add: outcome_Nil)
next
  case (Cons l L)
  then have l: "blank l" and L: "blank (concat L)" by simp_all
  from Cons.IH [OF L, of "B @ [l]"] strip_blank_trail [OF l, of "concat B"]
  show ?case by (simp add: outcome_Cons blank_not_comment [OF l] blank_no_semicolon [OF l])
qed

lemma outcome_blank_tail: "blank (concat L) \<Longrightarrow> outcome B (l # L) = outcome B [l]"
  by (simp add: outcome_Cons outcome_blank_lines outcome_Nil)

lemma outcome_line_trail: "blank c \<Longrightarrow> outcome B [l @ c] = outcome B [l]"
proof -
  assume c: "blank c"
  from strip_blank_trail [OF c, of "concat B @ l"]
  have "strip (concat B @ l @ c) = strip (concat B @ l)" by simp
  with c show ?thesis
    by (simp add: outcome_Cons outcome_Nil is_comment_trail blank_no_semicolon)
qed

lemma outcome_line_space:
  assumes "isspace x" and "10 \<notin> set cur"
  shows "outcome B [cur @ [x]] = outcome B (split_keepends cur)"
proof (cases "cur = []")
  case True
  have "blank (concat [[x]])" using assms by simp
  from outcome_blank_lines [OF this, of B] True show ?thesis by (simp add: outcome_Nil)
next
  case False
  have "blank [x]" using assms by simp
  from outcome_line_trail [OF this, of B cur] split_keepends_part [OF assms(2) False]
  show ?thesis by simp
qed

lemma outcome_trail0:
  "10 \<notin> set cur \<Longrightarrow> blank c \<Longrightarrow>
   outcome B (split_keepends (cur @ c)) = outcome B (split_keepends cur)"
proof (induction c arbitrary: cur)
  case Nil
  then show ?case by simp
next
  case (Cons x c)
  then have x: "isspace x" and c: "blank c" by simp_all
  show ?case
  proof (cases "x = 10")
    case True
    have "blank (concat (split_keepends c))" using c by (simp add: concat_split_keepends)
    from outcome_blank_tail [OF this, of B "cur @ [10]"]
    have "outcome B (split_keepends (cur @ x # c)) = outcome B [cur @ [10]]"
      by (simp add: True split_keepends_line [OF Cons.prems(1)])
    also have "\<dots> = outcome B (split_keepends cur)"
      using outcome_line_space [OF _ Cons.prems(1), of 10 B] by simp
    finally show ?thesis .
  next
    case False
    with Cons.prems have n: "10 \<notin> set (cur @ [x])" by simp
    from Cons.IH [OF n c] have "outcome B (split_keepends (cur @ x # c))
        = outcome B (split_keepends (cur @ [x]))" by simp
    also have "\<dots> = outcome B [cur @ [x]]"
      using split_keepends_part [OF n] by simp
    also have "\<dots> = outcome B (split_keepends cur)"
      using x Cons.prems(1) by (rule outcome_line_space)
    finally show ?thesis .
  qed
qed

lemma outcome_trail:
  "10 \<notin> set cur \<Longrightarrow> blank c \<Longrightarrow>
   outcome B (split_keepends (cur @ z @ c)) = outcome B (split_keepends (cur @ z))"
proof (induction z arbitrary: cur B)
  case Nil
  then show ?case by (simp add: outcome_trail0)
next
  case (Cons x z)
  show ?case
  proof (cases "x = 10")
    case True
    have ih: "outcome B'' (split_keepends (z @ c)) = outcome B'' (split_keepends z)" for B''
      using Cons.IH [of "[]" B''] Cons.prems(2) by simp
    have l: "split_keepends (cur @ (x # z) @ c) = (cur @ [10]) # split_keepends (z @ c)"
      using split_keepends_line [OF Cons.prems(1), of "z @ c"] by (simp add: True)
    have r: "split_keepends (cur @ x # z) = (cur @ [10]) # split_keepends z"
      using split_keepends_line [OF Cons.prems(1), of z] by (simp add: True)
    show ?thesis unfolding l r outcome_Cons ih ..
  next
    case False
    with Cons.prems have n: "10 \<notin> set (cur @ [x])" by simp
    from Cons.IH [OF n Cons.prems(2), of B] show ?thesis by simp
  qed
qed

lemma outcome_lead1:
  assumes B: "blank (concat B)" and x: "isspace x"
  shows "outcome B (split_keepends (x # z)) = outcome B (split_keepends z)"
proof (cases "x = 10")
  case True
  have "outcome B (split_keepends (x # z)) = outcome (B @ [[10]]) (split_keepends z)"
    by (simp add: True outcome_Cons blank_not_comment semicolon_def)
  also have "\<dots> = outcome B (split_keepends z)"
    using B by (intro outcome_blank_buffer) simp_all
  finally show ?thesis .
next
  case False
  show ?thesis
  proof (cases "split_keepends z")
    case Nil
    have "blank (concat [[x]])" using x by simp
    from outcome_blank_lines [OF this, of B] show ?thesis
      by (simp add: False Nil outcome_Nil)
  next
    case (Cons l ls)
    have sc: "semicolon \<in> set (x # l) \<longleftrightarrow> semicolon \<in> set l"
      using x not_isspace_semicolon by auto
    have s: "strip (concat B @ x # l) = strip (concat B @ l)"
      using strip_blank_lead [OF B, of "x # l"] strip_blank_lead [OF B, of l] x
      by (simp add: strip_lead)
    have "dropWhile isspace (concat (B @ [x # l])) = dropWhile isspace (concat (B @ [l]))"
      using B x by (simp add: dropWhile_append blank_def)
    then have c: "outcome (B @ [x # l]) ls = outcome (B @ [l]) ls" by (rule outcome_cong)
    have e: "split_keepends (x # z) = (x # l) # ls" by (simp add: False Cons)
    have "outcome B ((x # l) # ls) = outcome B (l # ls)"
      unfolding outcome_Cons is_comment_lead [OF x] sc s c ..
    then show ?thesis by (simp only: e Cons)
  qed
qed

lemma outcome_lead:
  "blank a \<Longrightarrow> blank (concat B) \<Longrightarrow>
   outcome B (split_keepends (a @ z)) = outcome B (split_keepends z)"
proof (induction a)
  case Nil
  then show ?case by simp
next
  case (Cons x a)
  then have "outcome B (split_keepends (x # a @ z)) = outcome B (split_keepends (a @ z))"
    by (intro outcome_lead1) simp_all
  with Cons show ?case by simp
qed

lemma outcome_strip:
  assumes B: "blank (concat B)" and t: "blank tail"
  shows "outcome B (split_keepends (strip X @ tail)) = outcome [] (split_keepends X)"
proof -
  from strip_decompose [of X] obtain a c where X: "X = a @ strip X @ c"
    and a: "\<forall>x\<in>set a. isspace x" and c: "\<forall>x\<in>set c. isspace x" by blast
  from a c have ba: "blank a" and bc: "blank c" by (simp_all add: blank_def)
  have "outcome B (split_keepends (strip X @ tail)) = outcome [] (split_keepends (strip X @ tail))"
    using B by (intro outcome_blank_buffer) simp_all
  also have "\<dots> = outcome [] (split_keepends (a @ strip X @ tail))"
    using outcome_lead [OF ba, of "[]" "strip X @ tail"] by simp
  also have "\<dots> = outcome [] (split_keepends (a @ strip X))"
    using outcome_trail [of "[]" tail "[]" "a @ strip X"] t by simp
  also have "\<dots> = outcome [] (split_keepends (a @ strip X @ c))"
    using outcome_trail [of "[]" c "[]" "a @ strip X"] bc by simp
  finally show ?thesis using X by simp
qed


subsection \<open>Proper lines\<close>

lemma split_keepends_Nil_iff: "split_keepends z = [] \<longleftrightarrow> z = []"
  by (cases z) (auto split: list.splits)

lemma split_keepends_newline:
  "split_keepends (u @ 10 # v) = split_keepends (u @ [10]) @ split_keepends v"
proof (induction u)
  case Nil
  then show ?case by simp
next
  case (Cons c u)
  have "split_keepends (u @ [10]) \<noteq> []" by (simp add: split_keepends_Nil_iff)
  then obtain l ls where "split_keepends (u @ [10]) = l # ls"
    by (cases "split_keepends (u @ [10])") auto
  with Cons show ?case by simp
qed

lemma split_keepends_single:
  assumes "l \<noteq> []" and "10 \<notin> set (butlast l)"
  shows "split_keepends l = [l]"
proof (cases "last l = 10")
  case True
  with assms(1) have "l = butlast l @ [10]" by (metis append_butlast_last_id)
  with split_keepends_line [OF assms(2), of "[]"] show ?thesis by simp
next
  case False
  with assms have "10 \<notin> set l" by (metis append_butlast_last_id in_set_butlast_appendI
        rotate1.simps(2) set_ConsD set_rotate1)
  from split_keepends_part [OF this assms(1)] show ?thesis .
qed

lemma properI:
  "(\<And>l. l \<in> set ls \<Longrightarrow> l \<noteq> [] \<and> 10 \<notin> set (butlast l)) \<Longrightarrow>
   (\<And>l. l \<in> set (butlast ls) \<Longrightarrow> last l = 10) \<Longrightarrow> proper ls"
  by (simp add: proper_def)

lemma proper_Cons:
  "proper (l # ls) \<longleftrightarrow>
     l \<noteq> [] \<and> 10 \<notin> set (butlast l) \<and> (ls \<noteq> [] \<longrightarrow> last l = 10) \<and> proper ls"
  by (auto simp: proper_def)

lemma proper_Nil [simp]: "proper []"
  by (simp add: proper_def)

lemma split_keepends_concat: "proper ls \<Longrightarrow> split_keepends (concat ls) = ls"
proof (induction ls)
  case Nil
  then show ?case by simp
next
  case (Cons l ls)
  then have l: "l \<noteq> []" "10 \<notin> set (butlast l)" and e: "ls \<noteq> [] \<longrightarrow> last l = 10"
    and p: "proper ls" by (simp_all add: proper_Cons)
  show ?case
  proof (cases "ls = []")
    case True
    with split_keepends_single [OF l] show ?thesis by simp
  next
    case False
    with e l(1) have "l = butlast l @ [10]" by (metis append_butlast_last_id)
    then obtain q where q: "l = q @ [10]" and nq: "10 \<notin> set q" using l(2) by metis
    have "split_keepends (concat (l # ls)) = split_keepends (q @ 10 # concat ls)"
      by (simp add: q)
    also have "\<dots> = (q @ [10]) # split_keepends (concat ls)"
      using nq by (rule split_keepends_line)
    also have "\<dots> = l # ls" by (simp only: q Cons.IH [OF p])
    finally show ?thesis .
  qed
qed

lemma proper_split_keepends: "proper (split_keepends x)"
proof (induction x rule: split_keepends.induct)
  case 1
  then show ?case by simp
next
  case (2 c cs)
  show ?case
  proof (cases "c = 10")
    case True
    with 2 show ?thesis by (simp add: proper_Cons)
  next
    case False
    show ?thesis
    proof (cases "split_keepends cs")
      case Nil
      with False show ?thesis by (simp add: proper_Cons)
    next
      case (Cons l ls)
      with 2 False have "proper (l # ls)" by simp
      with False Cons show ?thesis by (auto simp: proper_Cons)
    qed
  qed
qed

lemma proper_append_left: "proper (xs @ ys) \<Longrightarrow> proper xs"
  by (induction xs) (auto simp: proper_Cons)

lemma proper_append_right: "proper (xs @ ys) \<Longrightarrow> proper ys"
  by (induction xs) (auto simp: proper_Cons)

lemma proper_remove: "proper (xs @ l # ys) \<Longrightarrow> proper (xs @ ys)"
  by (induction xs) (auto simp: proper_Cons)

lemma proper_first: "proper (xs @ l # ys) \<Longrightarrow> proper (xs @ [l])"
  using proper_append_left [of "xs @ [l]" ys] by simp

subsection \<open>The two kinds of statement\<close>

lemma outcome_one:
  "\<forall>l\<in>set buf. \<not> is_comment l \<and> semicolon \<notin> set l \<Longrightarrow> \<not> is_comment line \<Longrightarrow>
   semicolon \<in> set line \<Longrightarrow>
   outcome B (buf @ [line]) = ([strip (concat (B @ buf @ [line]))], [])"
  by (induction buf arbitrary: B) (simp_all add: outcome_Cons outcome_Nil)

lemma outcome_none:
  "\<forall>l\<in>set buf. \<not> is_comment l \<and> semicolon \<notin> set l \<Longrightarrow>
   outcome B buf = ([], strip (concat (B @ buf)))"
  by (induction buf arbitrary: B) (simp_all add: outcome_Cons outcome_Nil)

lemma terminated_statement:
  assumes p: "proper (buf @ [line])"
    and buf: "\<forall>l\<in>set buf. \<not> is_comment l \<and> semicolon \<notin> set l"
    and line: "\<not> is_comment line" "semicolon \<in> set line"
  shows "terminated (strip (concat (buf @ [line])))"
  unfolding terminated_def
proof (intro allI impI)
  fix B tail assume "blank (concat B) \<and> blank tail"
  then have "outcome B (split_keepends (strip (concat (buf @ [line])) @ tail))
      = outcome [] (split_keepends (concat (buf @ [line])))"
    by (intro outcome_strip) simp_all
  also have "\<dots> = outcome [] (buf @ [line])" by (simp only: split_keepends_concat [OF p])
  also have "\<dots> = ([strip (concat (buf @ [line]))], [])"
    using outcome_one [OF buf line, of "[]"] by simp
  finally show "outcome B (split_keepends (strip (concat (buf @ [line])) @ tail))
      = ([strip (concat (buf @ [line]))], [])" .
qed

lemma unterminated_statement:
  assumes p: "proper buf"
    and buf: "\<forall>l\<in>set buf. \<not> is_comment l \<and> semicolon \<notin> set l"
    and ne: "strip (concat buf) \<noteq> []"
  shows "unterminated (strip (concat buf))"
  unfolding unterminated_def
proof (intro conjI allI impI)
  show "strip (concat buf) \<noteq> []" by (rule ne)
next
  fix B tail assume "blank (concat B) \<and> blank tail"
  then have "outcome B (split_keepends (strip (concat buf) @ tail))
      = outcome [] (split_keepends (concat buf))"
    by (intro outcome_strip) simp_all
  also have "\<dots> = outcome [] buf" by (simp only: split_keepends_concat [OF p])
  also have "\<dots> = ([], strip (concat buf))"
    using outcome_none [OF buf, of "[]"] by simp
  finally show "outcome B (split_keepends (strip (concat buf) @ tail)) = ([], strip (concat buf))" .
qed

lemma statements_kinds:
  assumes "proper (buf @ lines)"
    and "\<forall>l\<in>set buf. \<not> is_comment l \<and> semicolon \<notin> set l"
  shows "(\<forall>s\<in>set (emitted buf lines). terminated s) \<and>
         (strip (concat (buffer_after buf lines)) \<noteq> [] \<longrightarrow>
            unterminated (strip (concat (buffer_after buf lines))))"
  using assms
proof (induction lines arbitrary: buf)
  case Nil
  then show ?case by (simp add: unterminated_statement)
next
  case (Cons line rest)
  show ?case
  proof (cases "is_comment line")
    case True
    from Cons.prems(1) have "proper (buf @ rest)" by (rule proper_remove)
    from Cons.IH [OF this Cons.prems(2)] True show ?thesis by simp
  next
    case nc: False
    show ?thesis
    proof (cases "semicolon \<in> set line")
      case True
      from Cons.prems(1) have "proper (buf @ [line])" by (rule proper_first)
      from terminated_statement [OF this Cons.prems(2) nc True]
      have t: "terminated (strip (concat (buf @ [line])))" .
      from Cons.prems(1) have "proper ((buf @ [line]) @ rest)" by simp
      then have "proper ([] @ rest)" using proper_append_right by fastforce
      from Cons.IH [OF this] t nc True show ?thesis by simp
    next
      case False
      from Cons.prems(1) have p: "proper ((buf @ [line]) @ rest)" by simp
      from Cons.prems(2) nc False
      have "\<forall>l\<in>set (buf @ [line]). \<not> is_comment l \<and> semicolon \<notin> set l" by simp
      from Cons.IH [OF p this] nc False show ?thesis by simp
    qed
  qed
qed

subsection \<open>Batches read back\<close>

lemma spec_scan_append:
  "spec_scan B (X @ Y) = emitted B X @ spec_scan (buffer_after B X) Y"
  by (simp add: spec_scan_eq emitted_append buffer_after_append)

lemma spec_scan_blank_line: "spec_scan B ([10] # L) = spec_scan (B @ [[10]]) L"
proof -
  have "blank [10]" by simp
  from blank_not_comment [OF this] blank_no_semicolon [OF this]
  show ?thesis by (simp add: is_comment_def)
qed

lemma terminated_scan:
  assumes "terminated s" and "blank (concat B)" and "blank tail"
  shows "emitted B (split_keepends (s @ tail)) = [s]"
    and "blank (concat (buffer_after B (split_keepends (s @ tail))))"
proof -
  from assms have o: "outcome B (split_keepends (s @ tail)) = ([s], [])"
    unfolding terminated_def by blast
  then show "emitted B (split_keepends (s @ tail)) = [s]" by (simp add: outcome_def)
  from o have "strip (concat (buffer_after B (split_keepends (s @ tail)))) = []"
    by (simp add: outcome_def)
  then show "blank (concat (buffer_after B (split_keepends (s @ tail))))"
    unfolding strip_eq_Nil_iff blank_def .
qed

lemma unterminated_scan:
  assumes "unterminated s" and "blank (concat B)"
  shows "spec_scan B (split_keepends s) = [s]"
proof -
  from assms have "outcome B (split_keepends (s @ [])) = ([], s)" and "s \<noteq> []"
    unfolding unterminated_def by (blast intro: blank_Nil)+
  then show ?thesis by (simp add: spec_scan_eq outcome_def)
qed

lemma stmts_ok_Cons2: "stmts_ok (x # y # ys) \<Longrightarrow> terminated x \<and> stmts_ok (y # ys)"
  by (simp add: stmts_ok_def)

lemma scan_joined:
  "stmts_ok b \<Longrightarrow> blank (concat B) \<Longrightarrow> spec_scan B (split_keepends (join [10, 10] b)) = b"
proof (induction b arbitrary: B)
  case Nil
  then show ?case by (simp add: strip_blank)
next
  case (Cons x ys)
  show ?case
  proof (cases ys)
    case Nil
    from Cons.prems(1) Nil have "terminated x \<or> unterminated x" by (simp add: stmts_ok_def)
    then show ?thesis
    proof
      assume "terminated x"
      from terminated_scan [OF this Cons.prems(2), of "[]"]
      have "emitted B (split_keepends x) = [x]"
        and "blank (concat (buffer_after B (split_keepends x)))" by simp_all
      then show ?thesis by (simp add: Nil spec_scan_eq strip_blank)
    next
      assume "unterminated x"
      from unterminated_scan [OF this Cons.prems(2)] show ?thesis by (simp add: Nil)
    qed
  next
    case (Cons y zs)
    from stmts_ok_Cons2 [OF Cons.prems(1) [unfolded Cons]]
    have tx: "terminated x" and ok: "stmts_ok ys" by (simp_all add: Cons)
    let ?L1 = "split_keepends (x @ [10])"
    let ?J = "join [10, 10] ys"
    have "blank [10]" by simp
    note t = terminated_scan [OF tx Cons.prems(2) this]
    have "split_keepends (join [10, 10] (x # ys)) = ?L1 @ [10] # split_keepends ?J"
      using split_keepends_newline [of x "10 # ?J"] by (simp add: Cons)
    then have "spec_scan B (split_keepends (join [10, 10] (x # ys)))
        = emitted B ?L1 @ spec_scan (buffer_after B ?L1 @ [[10]]) (split_keepends ?J)"
      by (simp only: spec_scan_append spec_scan_blank_line)
    also have "\<dots> = x # ys"
      using t Cons.IH [OF ok, of "buffer_after B ?L1 @ [[10]]"] by simp
    finally show ?thesis .
  qed
qed

lemma stmts_ok_append_right: "stmts_ok (xs @ ys) \<Longrightarrow> stmts_ok ys"
  by (cases "ys = []") (auto simp: stmts_ok_def butlast_append)

lemma stmts_ok_append_left: "stmts_ok (xs @ ys) \<Longrightarrow> stmts_ok xs"
  by (cases "ys = []") (auto simp: stmts_ok_def butlast_append dest: in_set_butlastD)

lemma stmts_ok_batch:
  assumes "stmts_ok (concat bs)" and "b \<in> set bs"
  shows "stmts_ok b"
proof -
  from assms(2) obtain pre post where "bs = pre @ b # post" by (auto dest: split_list)
  with assms(1) have "stmts_ok (concat pre @ (b @ concat post))" by simp
  then have "stmts_ok (b @ concat post)" by (rule stmts_ok_append_right)
  then show ?thesis by (rule stmts_ok_append_left)
qed

lemma stmts_ok_statements:
  assumes "proper lines"
  shows "stmts_ok (spec_statements lines)"
proof -
  from assms have "proper ([] @ lines)" by simp
  from statements_kinds [OF this]
  have e: "\<forall>s\<in>set (emitted [] lines). terminated s"
    and u: "strip (concat (buffer_after [] lines)) \<noteq> [] \<longrightarrow>
            unterminated (strip (concat (buffer_after [] lines)))" by simp_all
  show ?thesis
  proof (cases "strip (concat (buffer_after [] lines)) \<noteq> []")
    case True
    with e u show ?thesis
      by (auto simp: stmts_ok_def spec_statements_eq trailing_def)
  next
    case False
    with e show ?thesis
      by (auto simp: stmts_ok_def spec_statements_eq trailing_def dest: in_set_butlastD)
  qed
qed

subsection \<open>Carriage returns\<close>

lemma universal_newlines_id: "13 \<notin> set x \<Longrightarrow> universal_newlines x = x"
  by (induction x) simp_all

lemma no_cr_universal_newlines: "13 \<notin> set (universal_newlines x)"
  by (induction x rule: universal_newlines.induct) (auto split: list.splits)

lemma set_strip: "set (strip x) \<subseteq> set x"
proof -
  from strip_decompose [of x] obtain a b where "x = a @ strip x @ b" by blast
  then have "set x = set a \<union> set (strip x) \<union> set b" by (metis set_append sup_assoc)
  then show ?thesis by blast
qed

lemma set_spec_scan:
  "s \<in> set (spec_scan B L) \<Longrightarrow> set s \<subseteq> set (concat B) \<union> set (concat L)"
proof (induction B L rule: spec_scan.induct)
  case (1 buf)
  then have "s = strip (concat buf)" by (simp split: if_splits)
  with set_strip [of "concat buf"] show ?case by simp
next
  case (2 buf line rest)
  show ?case
  proof (cases "startswith (strip line) (py_str ''--'') \<or> startswith (strip line) (py_str ''/*'')")
    case True
    with 2 show ?thesis by auto
  next
    case nc: False
    show ?thesis
    proof (cases "semicolon \<in> set line")
      case True
      with nc 2(4) have "s = strip (concat (buf @ [line])) \<or> s \<in> set (spec_scan [] rest)"
        by (auto split: if_splits)
      then show ?thesis
      proof
        assume "s = strip (concat (buf @ [line]))"
        with set_strip [of "concat (buf @ [line])"] show ?thesis by auto
      next
        assume "s \<in> set (spec_scan [] rest)"
        with 2(2) nc True show ?thesis by auto
      qed
    next
      case False
      with nc 2(3) 2(4) show ?thesis by auto
    qed
  qed
qed

lemma set_join: "set (join sep xs) \<subseteq> set sep \<union> \<Union> (set ` set xs)"
  by (induction sep xs rule: join.induct) auto

lemma recover_batch:
  assumes "b \<in> set (batches n (spec_statements (text_lines t)))"
  shows "recover (join [10, 10] b) = b"
proof -
  let ?S = "spec_statements (text_lines t)"
  have "proper (text_lines t)" unfolding text_lines_def by (rule proper_split_keepends)
  then have "stmts_ok ?S" by (rule stmts_ok_statements)
  then have "stmts_ok (concat (batches n ?S))" by (simp only: concat_batches)
  from stmts_ok_batch [OF this assms] have ok: "stmts_ok b" .
  have cr: "13 \<notin> set (concat (text_lines t))"
    by (simp add: text_lines_def concat_split_keepends no_cr_universal_newlines)
  have "13 \<notin> set s" if "s \<in> set b" for s
  proof -
    from that assms have "s \<in> set (concat (batches n ?S))" by auto
    then have "s \<in> set (spec_scan [] (text_lines t))"
      by (simp only: concat_batches spec_statements_def)
    from set_spec_scan [OF this] cr show ?thesis by auto
  qed
  with set_join [of "[10, 10]" b] have "13 \<notin> set (join [10, 10] b)" by auto
  then have "text_lines (join [10, 10] b) = split_keepends (join [10, 10] b)"
    by (simp add: text_lines_def universal_newlines_id)
  with scan_joined [OF ok, of "[]"] show ?thesis
    by (simp add: recover_def spec_statements_def)
qed

subsection \<open>The text of the files\<close>

lemma foldl_put_file_other: "p \<notin> fst ` set fl \<Longrightarrow> foldl put_file f fl p = f p"
  by (induction fl arbitrary: f) (auto simp: put_file_def)

lemma foldl_put_file_at:
  "distinct (map fst fl) \<Longrightarrow> (p, b) \<in> set fl \<Longrightarrow>
   foldl put_file f fl p = Some (File (join [10, 10] b))"
proof (induction fl arbitrary: f)
  case Nil
  then show ?case by simp
next
  case (Cons x xs)
  show ?case
  proof (cases "(p, b) = x")
    case True
    with Cons.prems(1) have "p \<notin> fst ` set xs" by force
    then have "foldl put_file (put_file f x) xs p = put_file f x p"
      by (rule foldl_put_file_other)
    also have "\<dots> = Some (File (join [10, 10] b))"
      using True by (auto simp: put_file_def)
    finally show ?thesis by simp
  next
    case False
    with Cons show ?thesis by auto
  qed
qed

lemma open_read_lines: "open_read f p = Inr lines \<Longrightarrow> \<exists>t. lines = text_lines t"
  by (auto simp: open_read_def split: sum.splits node.splits)

lemma written_files_hold:
  assumes e: "extends w w' (take k (output_files self (text_lines t)))"
    and pb: "pb \<in> set (new_files w w')"
  shows "fs w' (fst pb) = Some (File (join [10, 10] (snd pb)))"
    and "file_statements (fs w') (fst pb) = snd pb"
proof -
  let ?N = "output_files self (text_lines t)"
  from e have nf: "new_files w w' = take k ?N" by (rule new_files_extends)
  have "distinct (map fst ?N)" unfolding output_files_def by (rule distinct_named)
  then have "distinct (take k (map fst ?N))" by (rule distinct_take)
  then have d: "distinct (map fst (take k ?N))" by (simp add: take_map)
  from pb have m: "(fst pb, snd pb) \<in> set (take k ?N)" by (simp add: nf)
  from foldl_put_file_at [OF d m] extends_fs [OF e]
  show a: "fs w' (fst pb) = Some (File (join [10, 10] (snd pb)))" by simp
  from m have "pb \<in> set ?N" by (auto dest: in_set_takeD)
  then have "snd pb \<in> set (batches (statements_per_file self) (spec_statements (text_lines t)))"
    unfolding output_files_def by (rule set_named_snd)
  from recover_batch [OF this] a show "file_statements (fs w') (fst pb) = snd pb"
    by (simp add: file_statements_def)
qed

lemma read_back:
  assumes e: "extends w w' (take k (output_files self (text_lines t)))"
  shows "map (file_statements (fs w')) (files_written w w') = map snd (new_files w w')"
  unfolding files_written_def map_map
  by (rule map_cong [OF refl]) (simp add: written_files_hold(2) [OF e])


lemma files_written_names:
  assumes "extends w w' (take k (output_files self lines))"
  shows "files_written w w' =
           map (\<lambda>i. output_dir self @ [output_name (path_stem (input_file self)) i])
             [0..<length (files_written w w')]"
proof -
  let ?f = "\<lambda>i. output_dir self @ [output_name (path_stem (input_file self)) i]"
  let ?N = "output_files self lines"
  from assms have nf: "new_files w w' = take k ?N" by (rule new_files_extends)
  have mf: "map fst ?N = map ?f [0..<length ?N]"
    by (simp add: output_files_def map_fst_named)
  have "map fst (take k ?N) = take k (map fst ?N)" by (rule take_map [symmetric])
  also have "\<dots> = take k (map ?f [0..<length ?N])" by (simp only: mf)
  also have "\<dots> = map ?f (take k [0..<length ?N])" by (rule take_map)
  finally show ?thesis by (simp add: files_written_def nf take_upt_min min.commute)
qed


section \<open>Looking up plain paths\<close>








section \<open>Evaluating examples\<close>

text \<open>The equations that compute a run on a concrete world.\<close>

lemmas run_defs = split_sql_def lines_loop.simps update_progress_def process_line_def
  write_statements_to_file_def write_remaining_def last_statement_def print_summary_def
  on_exception_def open_read_def lookup_def walk.simps dot_def dotdot_def open_write_def
  node_at_def time_time_def print_def
  format_time_def py_int_def path_stem_def name_stem_def output_name_def format_03d_def
  digits.simps is_comment_def startswith_def strip_def isspace_def semicolon_def
  encoded_size_def utf8_len_def text_lines_def py_str_def ex_world_def ex_splitter_def Let_def
  numeral_2_eq_2


section \<open>The claims\<close>

text \<open>
  C1. For every run with a positive \<open>statements_per_file\<close>, whatever its outcome, and
  counting the statements of a file in the text that the file holds after the run:
  the files written are those of the indices 1, 2, ... in the output directory,
  every one of them except the last holds exactly \<open>statements_per_file\<close>
  statements, the last one holds at least one and at most \<open>statements_per_file\<close>,
  and when the input yields no statement no file is written and the file system is
  as it was.
\<close>

theorem batch_size_bound:
  assumes run: "split_sql self w = (r, w')" and pos: "0 < statements_per_file self"
  shows "files_written w w' =
           map (\<lambda>i. output_dir self @ [output_name (path_stem (input_file self)) i])
             [0..<length (files_written w w')] \<and>
         (\<forall>i. Suc i < length (files_written w w') \<longrightarrow>
            int (length (file_statements (fs w') (files_written w w' ! i)))
              = statements_per_file self) \<and>
         (files_written w w' \<noteq> [] \<longrightarrow>
            1 \<le> length (file_statements (fs w') (last (files_written w w'))) \<and>
            int (length (file_statements (fs w') (last (files_written w w'))))
              \<le> statements_per_file self) \<and>
         (\<forall>lines. open_read (fs w) (input_file self) = Inr lines \<and> spec_statements lines = []
            \<longrightarrow> files_written w w' = [] \<and> fs w' = fs w)"
proof (cases "open_read (fs w) (input_file self)")
  case (Inl e)
  from split_sql_unreadable(1) [OF run Inl] have "new_files w w' = []"
    by (rule new_files_extends)
  with Inl show ?thesis by (simp add: files_written_def)
next
  case rd: (Inr lines)
  from open_read_lines [OF rd] obtain t where t: "lines = text_lines t" ..
  let ?n = "statements_per_file self"
  let ?B = "batches ?n (spec_statements lines)"
  let ?N = "output_files self lines"
  let ?P = "files_written w w'"
  let ?S = "map (file_statements (fs w')) ?P"
  from split_sql_any [OF run rd] obtain k where e: "extends w w' (take k ?N)" ..
  then have nf: "new_files w w' = take k ?N" by (rule new_files_extends)
  have len: "length ?N = length ?B" by (simp add: output_files_def)
  have S: "?S = take k ?B"
    using read_back [OF e [unfolded t]] by (simp add: nf t output_files_def take_map [symmetric])
  have lenP: "length ?P = length (take k ?B)"
    using arg_cong [OF S, of length] by simp
  have a: "int (length (file_statements (fs w') (?P ! i))) = ?n" if "Suc i < length ?P" for i
  proof -
    from that have i: "i < k" "Suc i < length ?B" "i < length ?P" by (simp_all add: lenP)
    then have "file_statements (fs w') (?P ! i) = ?S ! i" by simp
    also have "\<dots> = ?B ! i" using i by (simp only: S) simp
    finally show ?thesis using batches_sizes(1) [OF pos] i by simp
  qed
  have b: "1 \<le> length (file_statements (fs w') (last ?P)) \<and>
      int (length (file_statements (fs w') (last ?P))) \<le> ?n" if ne: "?P \<noteq> []"
  proof -
    from ne have "file_statements (fs w') (last ?P) = last ?S" by (simp add: last_map)
    also have "\<dots> \<in> set (take k ?B)"
    proof -
      from ne lenP have "take k ?B \<noteq> []" by (metis length_0_conv)
      then show ?thesis unfolding S by (rule last_in_set)
    qed
    finally have "file_statements (fs w') (last ?P) \<in> set ?B" by (rule in_set_takeD)
    with batches_sizes(2) [OF pos] show ?thesis by blast
  qed
  have c: "?P = [] \<and> fs w' = fs w" if "spec_statements lines = []"
  proof -
    from that have "take k ?N = []" by (simp add: output_files_def)
    with extends_fs [OF e] nf show ?thesis by (simp add: files_written_def)
  qed
  note d = files_written_names [OF e]
  from a b c rd have "(\<forall>i. Suc i < length ?P \<longrightarrow>
            int (length (file_statements (fs w') (?P ! i))) = ?n) \<and>
         (?P \<noteq> [] \<longrightarrow>
            1 \<le> length (file_statements (fs w') (last ?P)) \<and>
            int (length (file_statements (fs w') (last ?P))) \<le> ?n) \<and>
         (\<forall>lines. open_read (fs w) (input_file self) = Inr lines \<and> spec_statements lines = []
            \<longrightarrow> ?P = [] \<and> fs w' = fs w)" by simp
  with d show ?thesis by (rule conjI)
qed

lemma ex_run_blank_line:
  "split_sql (ex_splitter (py_str ''a\<newline>\<newline>b;\<newline>c;\<newline>d;\<newline>'') 2)
     (ex_world (py_str ''a\<newline>\<newline>b;\<newline>c;\<newline>d;\<newline>'')) = (r, w') \<Longrightarrow>
   r = None \<and>
   written w' = [([py_str ''out'', py_str ''in_part001.sql''], [py_str ''a\<newline>\<newline>b;'', py_str ''c;'']),
                 ([py_str ''out'', py_str ''in_part002.sql''], [py_str ''d;''])] \<and>
   fs w' [py_str ''out'', py_str ''in_part001.sql'']
     = Some (File (py_str ''a\<newline>\<newline>b;\<newline>\<newline>c;'')) \<and>
   fs w' [py_str ''out'', py_str ''in_part002.sql''] = Some (File (py_str ''d;''))"
  by (auto simp add: run_defs)

text \<open>
  Three statements in batches of two, the first statement with an empty line in it:
  the first file holds the text \<open>a\n\nb;\n\nc;\<close>, in which the scan finds two
  statements again, and the second file holds one.
\<close>

theorem batch_size_bound_witness:
  "0 < statements_per_file (ex_splitter (py_str ''a\<newline>\<newline>b;\<newline>c;\<newline>d;\<newline>'') 2) \<and>
   files_written (ex_world (py_str ''a\<newline>\<newline>b;\<newline>c;\<newline>d;\<newline>''))
       (snd (split_sql (ex_splitter (py_str ''a\<newline>\<newline>b;\<newline>c;\<newline>d;\<newline>'') 2)
              (ex_world (py_str ''a\<newline>\<newline>b;\<newline>c;\<newline>d;\<newline>''))))
     = [[py_str ''out'', py_str ''in_part001.sql''], [py_str ''out'', py_str ''in_part002.sql'']] \<and>
   fs (snd (split_sql (ex_splitter (py_str ''a\<newline>\<newline>b;\<newline>c;\<newline>d;\<newline>'') 2)
              (ex_world (py_str ''a\<newline>\<newline>b;\<newline>c;\<newline>d;\<newline>''))))
       [py_str ''out'', py_str ''in_part001.sql'']
     = Some (File (py_str ''a\<newline>\<newline>b;\<newline>\<newline>c;'')) \<and>
   file_statements
       (fs (snd (split_sql (ex_splitter (py_str ''a\<newline>\<newline>b;\<newline>c;\<newline>d;\<newline>'') 2)
                   (ex_world (py_str ''a\<newline>\<newline>b;\<newline>c;\<newline>d;\<newline>'')))))
       [py_str ''out'', py_str ''in_part001.sql'']
     = [py_str ''a\<newline>\<newline>b;'', py_str ''c;''] \<and>
   int (length (file_statements
       (fs (snd (split_sql (ex_splitter (py_str ''a\<newline>\<newline>b;\<newline>c;\<newline>d;\<newline>'') 2)
                   (ex_world (py_str ''a\<newline>\<newline>b;\<newline>c;\<newline>d;\<newline>'')))))
       [py_str ''out'', py_str ''in_part001.sql''])) = 2 \<and>
   1 \<le> length (file_statements
       (fs (snd (split_sql (ex_splitter (py_str ''a\<newline>\<newline>b;\<newline>c;\<newline>d;\<newline>'') 2)
                   (ex_world (py_str ''a\<newline>\<newline>b;\<newline>c;\<newline>d;\<newline>'')))))
       [py_str ''out'', py_str ''in_part002.sql''])"
proof -
  let ?c = "py_str ''a\<newline>\<newline>b;\<newline>c;\<newline>d;\<newline>''"
  let ?p1 = "[py_str ''out'', py_str ''in_part001.sql'']"
  let ?p2 = "[py_str ''out'', py_str ''in_part002.sql'']"
  let ?run = "split_sql (ex_splitter ?c 2) (ex_world ?c)"
  let ?P = "files_written (ex_world ?c) (snd ?run)"
  have pos: "0 < statements_per_file (ex_splitter ?c 2)" by (simp add: ex_splitter_def)
  have run: "?run = (fst ?run, snd ?run)" by simp
  note ex = ex_run_blank_line [OF run]
  from ex have P: "?P = [?p1, ?p2]"
    by (simp add: files_written_def new_files_def ex_world_def)
  from ex have t1: "fs (snd ?run) ?p1 = Some (File (py_str ''a\<newline>\<newline>b;\<newline>\<newline>c;''))"
    by blast
  have s1: "file_statements (fs (snd ?run)) ?p1 = [py_str ''a\<newline>\<newline>b;'', py_str ''c;'']"
    unfolding file_statements_def t1
    by (simp add: recover_def text_lines_def spec_statements_def strip_def isspace_def
        startswith_def semicolon_def py_str_def)
  note th = batch_size_bound [OF run pos]
  from th have "Suc 0 < length ?P \<longrightarrow>
      int (length (file_statements (fs (snd ?run)) (?P ! 0)))
        = statements_per_file (ex_splitter ?c 2)" by blast
  moreover have "statements_per_file (ex_splitter ?c 2) = 2" by (simp add: ex_splitter_def)
  ultimately have a: "int (length (file_statements (fs (snd ?run)) ?p1)) = 2"
    unfolding P by simp
  from th have "?P \<noteq> [] \<longrightarrow> 1 \<le> length (file_statements (fs (snd ?run)) (last ?P))"
    by blast
  then have b: "1 \<le> length (file_statements (fs (snd ?run)) ?p2)" unfolding P by simp
  from pos P t1 s1 a b show ?thesis by blast
qed


text \<open>
  C3. For every input file, the statements are written in order and none is lost or
  repeated. The statements read back from the text of the files that the run has
  written, file after file in the order of their indices, are exactly the statements
  of the documented single pass over the whole input when the run returns, and the
  first of them when it is aborted. No file is written twice, the text of each file
  is its batch joined by empty lines, the scan of that text gives the batch back,
  and no statement is empty.
\<close>

theorem statements_preserved:
  assumes run: "split_sql self w = (r, w')"
    and rd: "open_read (fs w) (input_file self) = Inr lines"
  shows "prefix (concat (map (file_statements (fs w')) (files_written w w')))
           (spec_statements lines) \<and>
         (r = None \<longrightarrow>
            concat (map (file_statements (fs w')) (files_written w w')) = spec_statements lines) \<and>
         distinct (files_written w w') \<and>
         (\<forall>pb\<in>set (new_files w w').
            fs w' (fst pb) = Some (File (join [10, 10] (snd pb))) \<and>
            recover (join [10, 10] (snd pb)) = snd pb) \<and>
         [] \<notin> set (spec_statements lines)"
proof -
  from open_read_lines [OF rd] obtain t where t: "lines = text_lines t" ..
  let ?B = "batches (statements_per_file self) (spec_statements lines)"
  let ?R = "concat (map (file_statements (fs w')) (files_written w w'))"
  from split_sql_any [OF run rd] obtain k where e: "extends w w' (take k (output_files self lines))" ..
  then have nf: "new_files w w' = take k (output_files self lines)" by (rule new_files_extends)
  note rb = read_back [OF e [unfolded t]]
  have "map snd (new_files w w') = take k ?B"
    by (simp add: nf output_files_def take_map [symmetric])
  then have R: "?R = concat (take k ?B)" by (simp only: rb)
  then have "prefix ?R (concat ?B)" by (simp add: prefix_concat_take)
  then have a: "prefix ?R (spec_statements lines)" by (simp add: concat_batches)
  have b: "?R = spec_statements lines" if "r = None"
  proof -
    from split_sql_ok [OF run [unfolded that]] rd
    have "extends w w' (output_files self lines)" by simp
    then have "new_files w w' = output_files self lines" by (rule new_files_extends)
    then have "map snd (new_files w w') = ?B" by (simp add: output_files_def)
    then show ?thesis by (simp only: rb concat_batches)
  qed
  have "distinct (map fst (output_files self lines))"
    unfolding output_files_def by (rule distinct_named)
  then have "distinct (take k (map fst (output_files self lines)))" by (rule distinct_take)
  then have c: "distinct (files_written w w')" by (simp add: files_written_def nf take_map)
  have d: "fs w' (fst pb) = Some (File (join [10, 10] (snd pb))) \<and>
      recover (join [10, 10] (snd pb)) = snd pb" if "pb \<in> set (new_files w w')" for pb
    using written_files_hold [OF e [unfolded t] that] by (simp add: file_statements_def)
  have f: "[] \<notin> set (spec_statements lines)"
    unfolding spec_statements_def by (rule spec_scan_nonempty)
  from a b c d f show ?thesis by blast
qed

lemma ex_run_four:
  "split_sql (ex_splitter (py_str ''a;\<newline>b;\<newline>c;\<newline>d'') 2)
     (ex_world (py_str ''a;\<newline>b;\<newline>c;\<newline>d'')) = (r, w') \<Longrightarrow>
   r = None \<and>
   written w' = [([py_str ''out'', py_str ''in_part001.sql''], [py_str ''a;'', py_str ''b;'']),
                 ([py_str ''out'', py_str ''in_part002.sql''], [py_str ''c;'', py_str ''d''])] \<and>
   fs w' [py_str ''out'', py_str ''in_part001.sql''] = Some (File (py_str ''a;\<newline>\<newline>b;'')) \<and>
   fs w' [py_str ''out'', py_str ''in_part002.sql''] = Some (File (py_str ''c;\<newline>\<newline>d''))"
  by (auto simp add: run_defs)

text \<open>
  A run on four statements, the last one without a semicolon, returns, and the text
  of its two files holds the four statements in order.
\<close>

theorem statements_preserved_witness:
  "open_read (fs (ex_world (py_str ''a;\<newline>b;\<newline>c;\<newline>d'')))
      (input_file (ex_splitter (py_str ''a;\<newline>b;\<newline>c;\<newline>d'') 2))
     = Inr (text_lines (py_str ''a;\<newline>b;\<newline>c;\<newline>d'')) \<and>
   fst (split_sql (ex_splitter (py_str ''a;\<newline>b;\<newline>c;\<newline>d'') 2)
          (ex_world (py_str ''a;\<newline>b;\<newline>c;\<newline>d''))) = None \<and>
   spec_statements (text_lines (py_str ''a;\<newline>b;\<newline>c;\<newline>d''))
     = [py_str ''a;'', py_str ''b;'', py_str ''c;'', py_str ''d''] \<and>
   fs (snd (split_sql (ex_splitter (py_str ''a;\<newline>b;\<newline>c;\<newline>d'') 2)
              (ex_world (py_str ''a;\<newline>b;\<newline>c;\<newline>d''))))
       [py_str ''out'', py_str ''in_part002.sql''] = Some (File (py_str ''c;\<newline>\<newline>d'')) \<and>
   concat (map (file_statements
                  (fs (snd (split_sql (ex_splitter (py_str ''a;\<newline>b;\<newline>c;\<newline>d'') 2)
                              (ex_world (py_str ''a;\<newline>b;\<newline>c;\<newline>d''))))))
             (files_written (ex_world (py_str ''a;\<newline>b;\<newline>c;\<newline>d''))
                (snd (split_sql (ex_splitter (py_str ''a;\<newline>b;\<newline>c;\<newline>d'') 2)
                       (ex_world (py_str ''a;\<newline>b;\<newline>c;\<newline>d''))))))
     = [py_str ''a;'', py_str ''b;'', py_str ''c;'', py_str ''d'']"
proof -
  let ?c = "py_str ''a;\<newline>b;\<newline>c;\<newline>d''"
  let ?run = "split_sql (ex_splitter ?c 2) (ex_world ?c)"
  have rd: "open_read (fs (ex_world ?c)) (input_file (ex_splitter ?c 2)) = Inr (text_lines ?c)"
    by (simp add: open_read_def lookup_def dot_def dotdot_def node_at_def ex_world_def
        ex_splitter_def py_str_def)
  have run: "?run = (fst ?run, snd ?run)" by simp
  note ex = ex_run_four [OF run]
  from ex have ok: "fst ?run = None" by blast
  from ex have t2: "fs (snd ?run) [py_str ''out'', py_str ''in_part002.sql'']
      = Some (File (py_str ''c;\<newline>\<newline>d''))" by blast
  have sp: "spec_statements (text_lines ?c) = [py_str ''a;'', py_str ''b;'', py_str ''c;'', py_str ''d'']"
    by (simp add: text_lines_def py_str_def spec_statements_def strip_def isspace_def
        startswith_def semicolon_def)
  from statements_preserved [OF run rd] ok
  have "concat (map (file_statements (fs (snd ?run))) (files_written (ex_world ?c) (snd ?run)))
      = spec_statements (text_lines ?c)" by blast
  with rd ok sp t2 show ?thesis by simp
qed


text \<open>
  C4. For every run, whatever its outcome, the files written are named, in the order
  of writing, \<open>{stem}_part{i+1:03d}.sql\<close> for \<open>i = 0, 1, ..., N - 1\<close> in the output
  directory: the indices start at 1 and have no gap, and no name occurs twice. The
  index is written in decimal, padded with zeros to three characters below 1000 and
  not padded or cut from 1000 on.
\<close>

theorem output_names_contiguous:
  assumes run: "split_sql self w = (r, w')"
  shows "map fst (new_files w w') =
           map (\<lambda>i. output_dir self @
                  [path_stem (input_file self) @ py_str ''_part'' @ format_03d (i + 1) @
                   py_str ''.sql''])
             [0..<length (new_files w w')] \<and>
         distinct (map fst (new_files w w')) \<and>
         (\<forall>k. length (format_03d k) = max 3 (length (digits k)) \<and>
              decimal_value (format_03d k) = k \<and>
              (k < 1000 \<longrightarrow> length (format_03d k) = 3) \<and>
              (1000 \<le> k \<longrightarrow> format_03d k = digits k \<and> 3 < length (digits k)))"
proof -
  let ?f = "\<lambda>i. output_dir self @ [output_name (path_stem (input_file self)) i]"
  have names: "map fst (new_files w w') = map ?f [0..<length (new_files w w')] \<and>
      distinct (map fst (new_files w w'))"
  proof (cases "open_read (fs w) (input_file self)")
    case (Inl e)
    from split_sql_unreadable(1) [OF run Inl] have "new_files w w' = []"
      by (rule new_files_extends)
    then show ?thesis by simp
  next
    case rd: (Inr lines)
    let ?N = "output_files self lines"
    from split_sql_any [OF run rd] obtain k where "extends w w' (take k ?N)" ..
    then have nf: "new_files w w' = take k ?N" by (rule new_files_extends)
    have mf: "map fst ?N = map ?f [0..<length ?N]"
      by (simp add: output_files_def map_fst_named)
    have "map fst (take k ?N) = take k (map fst ?N)" by (rule take_map [symmetric])
    also have "\<dots> = take k (map ?f [0..<length ?N])" by (simp only: mf)
    also have "\<dots> = map ?f (take k [0..<length ?N])" by (rule take_map)
    finally have a: "map fst (new_files w w') = map ?f [0..<length (new_files w w')]"
      by (simp add: nf take_upt_min min.commute)
    have "distinct (map fst ?N)" unfolding output_files_def by (rule distinct_named)
    then have "distinct (take k (map fst ?N))" by (rule distinct_take)
    then have b: "distinct (map fst (new_files w w'))" by (simp add: nf take_map)
    from a b show ?thesis ..
  qed
  have fmt: "length (format_03d k) = max 3 (length (digits k)) \<and>
              decimal_value (format_03d k) = k \<and>
              (k < 1000 \<longrightarrow> length (format_03d k) = 3) \<and>
              (1000 \<le> k \<longrightarrow> format_03d k = digits k \<and> 3 < length (digits k))" for k
  proof -
    have small: "length (digits k) \<le> 3" if "k < 1000"
      using length_digits_le [of k 2] that by simp
    have big: "3 < length (digits k)" if "1000 \<le> k"
      using length_digits_gt [of 3 k] that by simp
    have c: "k < 1000 \<longrightarrow> length (format_03d k) = 3"
      using small by (auto simp: length_format)
    have d: "1000 \<le> k \<longrightarrow> format_03d k = digits k \<and> 3 < length (digits k)"
      using big by (auto simp: format_03d_def)
    from length_format [of k] decimal_value_format [of k] c d show ?thesis by blast
  qed
  from names [unfolded output_name_def] fmt show ?thesis by blast
qed

text \<open>
  The two files of a run, and the index at 7 and at 1000.
\<close>

theorem output_names_contiguous_witness:
  "map fst (new_files (ex_world (py_str ''a;\<newline>b;\<newline>c;\<newline>''))
        (snd (split_sql (ex_splitter (py_str ''a;\<newline>b;\<newline>c;\<newline>'') 2)
               (ex_world (py_str ''a;\<newline>b;\<newline>c;\<newline>'')))))
     = [[py_str ''out'', py_str ''in_part001.sql''], [py_str ''out'', py_str ''in_part002.sql'']] \<and>
   length (format_03d 7) = 3 \<and>
   format_03d 1000 = py_str ''1000''"
proof -
  let ?c = "py_str ''a;\<newline>b;\<newline>c;\<newline>''"
  let ?run = "split_sql (ex_splitter ?c 2) (ex_world ?c)"
  let ?NF = "new_files (ex_world ?c) (snd ?run)"
  have run: "?run = (fst ?run, snd ?run)" by simp
  note th = output_names_contiguous [OF run]
  have len: "length ?NF = 2" by (simp add: new_files_def run_defs)
  from th have "map fst ?NF =
     map (\<lambda>i. output_dir (ex_splitter ?c 2) @
            [path_stem (input_file (ex_splitter ?c 2)) @ py_str ''_part'' @ format_03d (i + 1) @
             py_str ''.sql''])
       [0..<length ?NF]" by (rule conjunct1)
  then have a: "map fst ?NF =
      [[py_str ''out'', py_str ''in_part001.sql''], [py_str ''out'', py_str ''in_part002.sql'']]"
    unfolding len
    by (simp add: ex_splitter_def path_stem_def dot_def Let_def name_stem_def format_03d_def
        digits.simps py_str_def numeral_2_eq_2 upt_rec)
  from th have "(7::nat) < 1000 \<longrightarrow> length (format_03d 7) = 3" by blast
  then have b: "length (format_03d 7) = 3" by simp
  from th have "(1000::nat) \<le> 1000 \<longrightarrow> format_03d 1000 = digits 1000" by blast
  then have c: "format_03d 1000 = py_str ''1000''" by (simp add: digits.simps py_str_def)
  from a b c show ?thesis by blast
qed


lemma is_comment_process_line:
  "is_comment line \<Longrightarrow> process_line self stem line st w = (Inr st, w)"
  by (simp add: process_line_def)

lemma ex_run_comment:
  "split_sql (ex_splitter (py_str ''-- comment\<newline>SELECT 1;\<newline>'') 100)
     (ex_world (py_str ''-- comment\<newline>SELECT 1;\<newline>'')) = (r, w') \<Longrightarrow>
   r = None \<and> written w' = [([py_str ''out'', py_str ''in_part001.sql''], [py_str ''SELECT 1;''])] \<and>
   fs w' [py_str ''out'', py_str ''in_part001.sql''] = Some (File (py_str ''SELECT 1;''))"
  by (auto simp add: run_defs)

text \<open>
  C5. A line whose trimmed form starts with \<open>--\<close> or \<open>/*\<close> is skipped entirely: the
  loop body leaves the local variables and the world as they are (the line is not
  appended to the buffer and ends no statement, even when it holds a semicolon), the
  loop goes on with the next line after the progress update, and the statements of
  an input are those of the input without the line. The input
  \<open>-- comment\n SELECT 1;\n\<close> gives the one statement \<open>SELECT 1;\<close>, written to the
  first file.
\<close>

theorem comment_line_skipped:
  assumes "startswith (strip line) (py_str ''--'') \<or> startswith (strip line) (py_str ''/*'')"
  shows "process_line self stem line st w = (Inr st, w) \<and>
         lines_loop self stem (line # rest) st w =
           (case update_progress self (encoded_size line) w of
              (Inl e, w1) \<Rightarrow> (Inl e, w1)
            | (Inr self1, w1) \<Rightarrow> lines_loop self1 stem rest st w1) \<and>
         spec_statements (before @ line # rest) = spec_statements (before @ rest) \<and>
         fst (split_sql (ex_splitter (py_str ''-- comment\<newline>SELECT 1;\<newline>'') 100)
                (ex_world (py_str ''-- comment\<newline>SELECT 1;\<newline>''))) = None \<and>
         written (snd (split_sql (ex_splitter (py_str ''-- comment\<newline>SELECT 1;\<newline>'') 100)
                (ex_world (py_str ''-- comment\<newline>SELECT 1;\<newline>''))))
           = [([py_str ''out'', py_str ''in_part001.sql''], [py_str ''SELECT 1;''])] \<and>
         fs (snd (split_sql (ex_splitter (py_str ''-- comment\<newline>SELECT 1;\<newline>'') 100)
                (ex_world (py_str ''-- comment\<newline>SELECT 1;\<newline>''))))
            [py_str ''out'', py_str ''in_part001.sql''] = Some (File (py_str ''SELECT 1;''))"
proof -
  from assms have c: "is_comment line" by (simp add: is_comment_def)
  have a: "process_line self stem line st w = (Inr st, w)"
    using c by (rule is_comment_process_line)
  have b: "lines_loop self stem (line # rest) st w =
           (case update_progress self (encoded_size line) w of
              (Inl e, w1) \<Rightarrow> (Inl e, w1)
            | (Inr self1, w1) \<Rightarrow> lines_loop self1 stem rest st w1)"
    using c by (auto simp: is_comment_process_line split: prod.splits sum.splits)
  have "spec_scan buf (before @ line # rest) = spec_scan buf (before @ rest)" for buf
    using assms by (induction before arbitrary: buf) simp_all
  then have d: "spec_statements (before @ line # rest) = spec_statements (before @ rest)"
    by (simp add: spec_statements_def)
  let ?run = "split_sql (ex_splitter (py_str ''-- comment\<newline>SELECT 1;\<newline>'') 100)
                (ex_world (py_str ''-- comment\<newline>SELECT 1;\<newline>''))"
  have "?run = (fst ?run, snd ?run)" by simp
  note ex = ex_run_comment [OF this]
  from a b d ex show ?thesis by blast
qed

text \<open>
  A block-comment line with a semicolon, between the two lines of a statement.
\<close>

theorem comment_line_skipped_witness:
  "startswith (strip (py_str ''  /* a; */\<newline>'')) (py_str ''/*'') \<and>
   semicolon \<in> set (py_str ''  /* a; */\<newline>'') \<and>
   process_line (ex_splitter [] 1) (py_str ''in'') (py_str ''  /* a; */\<newline>'')
       \<lparr>statements = [], current_statement = [py_str ''SELECT\<newline>''],
        current_file_index = 0, statement_count = 0\<rparr> (ex_world [])
     = (Inr \<lparr>statements = [], current_statement = [py_str ''SELECT\<newline>''],
             current_file_index = 0, statement_count = 0\<rparr>, ex_world []) \<and>
   spec_statements ([py_str ''SELECT\<newline>''] @ py_str ''  /* a; */\<newline>'' # [py_str ''1;\<newline>''])
     = [py_str ''SELECT\<newline>1;'']"
proof -
  let ?l = "py_str ''  /* a; */\<newline>''"
  have h: "startswith (strip ?l) (py_str ''/*'')"
    by (simp add: startswith_def strip_def isspace_def py_str_def)
  then have h': "startswith (strip ?l) (py_str ''--'') \<or> startswith (strip ?l) (py_str ''/*'')" ..
  have s: "semicolon \<in> set ?l" by (simp add: semicolon_def py_str_def)
  note th = comment_line_skipped [OF h']
  from th have a: "process_line (ex_splitter [] 1) (py_str ''in'') ?l
       \<lparr>statements = [], current_statement = [py_str ''SELECT\<newline>''],
        current_file_index = 0, statement_count = 0\<rparr> (ex_world [])
     = (Inr \<lparr>statements = [], current_statement = [py_str ''SELECT\<newline>''],
             current_file_index = 0, statement_count = 0\<rparr>, ex_world [])" by blast
  from th have "spec_statements ([py_str ''SELECT\<newline>''] @ ?l # [py_str ''1;\<newline>''])
     = spec_statements ([py_str ''SELECT\<newline>''] @ [py_str ''1;\<newline>''])" by blast
  also have "\<dots> = [py_str ''SELECT\<newline>1;'']"
    by (simp add: py_str_def spec_statements_def strip_def isspace_def startswith_def semicolon_def)
  finally have b: "spec_statements ([py_str ''SELECT\<newline>''] @ ?l # [py_str ''1;\<newline>''])
     = [py_str ''SELECT\<newline>1;'']" .
  from h s a b show ?thesis by blast
qed


lemma ex_run_trailing:
  "split_sql (ex_splitter (py_str ''SELECT 1;\<newline>SELECT 2'') 100)
     (ex_world (py_str ''SELECT 1;\<newline>SELECT 2'')) = (r, w') \<Longrightarrow>
   r = None \<and>
   written w' = [([py_str ''out'', py_str ''in_part001.sql''],
                  [py_str ''SELECT 1;'', py_str ''SELECT 2''])] \<and>
   fs w' [py_str ''out'', py_str ''in_part001.sql'']
     = Some (File (py_str ''SELECT 1;\<newline>\<newline>SELECT 2''))"
  by (auto simp add: run_defs)

lemma lines_loop_buffer:
  "lines_loop self stem lines initial_locals w = (Inr (self1, st1), w1) \<Longrightarrow>
   current_statement st1 = buffer_after [] lines \<and>
   statement_count st1 = length (emitted [] lines)"
  by (drule lines_loop_ok) (simp add: locals_after_def initial_locals_def)

lemma flushed_nonempty: "[] \<notin> set (flushed n p ss)"
  by (induction ss arbitrary: p) simp_all

lemma batches_nonempty: "[] \<notin> set (batches n ss)"
  by (simp add: batches_def flushed_nonempty)

lemma last_concat_last: "xss \<noteq> [] \<Longrightarrow> last xss \<noteq> [] \<Longrightarrow> last (concat xss) = last (last xss)"
  by (induction xss rule: rev_induct) simp_all

text \<open>
  C6. When a run returns, the statements it has written are those ended by a
  terminator followed by the content of the buffer at the end of the input, joined
  and trimmed, if that is not empty: then it is the last statement of the last
  file. The buffer is the one the loop leaves, and the counter counts this statement
  too. The input \<open>SELECT 1;\n SELECT 2\<close> gives the two statements \<open>SELECT 1;\<close> and
  \<open>SELECT 2\<close>.
\<close>

theorem trailing_statement_flushed:
  assumes run: "split_sql self w = (None, w')"
    and rd: "open_read (fs w) (input_file self) = Inr lines"
  shows "concat (map snd (new_files w w')) =
           emitted [] lines @
             (if strip (concat (buffer_after [] lines)) \<noteq> []
              then [strip (concat (buffer_after [] lines))] else []) \<and>
         (strip (concat (buffer_after [] lines)) \<noteq> [] \<longrightarrow>
            new_files w w' \<noteq> [] \<and>
            last (snd (last (new_files w w'))) = strip (concat (buffer_after [] lines))) \<and>
         (\<forall>self1 st1 w1.
            lines_loop self (path_stem (input_file self)) lines initial_locals w
              = (Inr (self1, st1), w1) \<longrightarrow>
            current_statement st1 = buffer_after [] lines \<and>
            statement_count (last_statement st1) = length (concat (map snd (new_files w w')))) \<and>
         fst (split_sql (ex_splitter (py_str ''SELECT 1;\<newline>SELECT 2'') 100)
                (ex_world (py_str ''SELECT 1;\<newline>SELECT 2''))) = None \<and>
         written (snd (split_sql (ex_splitter (py_str ''SELECT 1;\<newline>SELECT 2'') 100)
                (ex_world (py_str ''SELECT 1;\<newline>SELECT 2''))))
           = [([py_str ''out'', py_str ''in_part001.sql''],
               [py_str ''SELECT 1;'', py_str ''SELECT 2''])]"
proof -
  let ?t = "strip (concat (buffer_after [] lines))"
  let ?NF = "new_files w w'"
  from split_sql_ok [OF run] rd have "extends w w' (output_files self lines)" by simp
  then have nf: "?NF = output_files self lines" by (rule new_files_extends)
  then have ms: "map snd ?NF = batches (statements_per_file self) (spec_statements lines)"
    by (simp add: output_files_def)
  have a: "concat (map snd ?NF) = emitted [] lines @ (if ?t \<noteq> [] then [?t] else [])"
    by (simp add: ms concat_batches spec_statements_eq trailing_def)
  have b: "?NF \<noteq> [] \<and> last (snd (last ?NF)) = ?t" if t: "?t \<noteq> []"
  proof -
    from a t have c: "concat (map snd ?NF) = emitted [] lines @ [?t]" by simp
    then have ne: "map snd ?NF \<noteq> []" by auto
    have "[] \<notin> set (map snd ?NF)" unfolding ms by (rule batches_nonempty)
    with ne have "last (map snd ?NF) \<noteq> []" by (metis last_in_set)
    from last_concat_last [OF ne this] c have "last (last (map snd ?NF)) = ?t" by simp
    with ne show ?thesis by (simp add: last_map)
  qed
  have d: "current_statement st1 = buffer_after [] lines \<and>
      statement_count (last_statement st1) = length (concat (map snd ?NF))"
    if "lines_loop self (path_stem (input_file self)) lines initial_locals w = (Inr (self1, st1), w1)"
    for self1 st1 w1
    using lines_loop_buffer [OF that] by (simp add: a last_statement_eq)
  let ?run = "split_sql (ex_splitter (py_str ''SELECT 1;\<newline>SELECT 2'') 100)
                (ex_world (py_str ''SELECT 1;\<newline>SELECT 2''))"
  have "?run = (fst ?run, snd ?run)" by simp
  note ex = ex_run_trailing [OF this]
  from a b d ex show ?thesis by blast
qed

text \<open>
  Three terminated statements and a fourth without a semicolon, in batches of two.
\<close>

theorem trailing_statement_flushed_witness:
  "fst (split_sql (ex_splitter (py_str ''a;\<newline>b;\<newline>c;\<newline>d'') 2)
          (ex_world (py_str ''a;\<newline>b;\<newline>c;\<newline>d''))) = None \<and>
   strip (concat (buffer_after [] (text_lines (py_str ''a;\<newline>b;\<newline>c;\<newline>d'')))) = py_str ''d'' \<and>
   last (snd (last (new_files (ex_world (py_str ''a;\<newline>b;\<newline>c;\<newline>d''))
        (snd (split_sql (ex_splitter (py_str ''a;\<newline>b;\<newline>c;\<newline>d'') 2)
               (ex_world (py_str ''a;\<newline>b;\<newline>c;\<newline>d''))))))) = py_str ''d''"
proof -
  let ?c = "py_str ''a;\<newline>b;\<newline>c;\<newline>d''"
  let ?run = "split_sql (ex_splitter ?c 2) (ex_world ?c)"
  have rd: "open_read (fs (ex_world ?c)) (input_file (ex_splitter ?c 2)) = Inr (text_lines ?c)"
    by (simp add: open_read_def lookup_def dot_def dotdot_def node_at_def ex_world_def
        ex_splitter_def py_str_def)
  have ok: "fst ?run = None" by (simp add: run_defs)
  then have run: "?run = (None, snd ?run)" by (metis prod.collapse)
  have t: "strip (concat (buffer_after [] (text_lines ?c))) = py_str ''d''"
    by (simp add: text_lines_def py_str_def strip_def isspace_def is_comment_def
        startswith_def semicolon_def)
  then have ne: "strip (concat (buffer_after [] (text_lines ?c))) \<noteq> []"
    by (simp add: py_str_def)
  from trailing_statement_flushed [OF run rd] ne
  have "last (snd (last (new_files (ex_world ?c) (snd ?run))))
      = strip (concat (buffer_after [] (text_lines ?c)))" by blast
  with ok t show ?thesis by simp
qed


text \<open>
  C7. A line that is not a comment and holds one or more semicolons ends the current
  statement exactly once: when the loop body succeeds the buffer is empty, the
  counter has grown by one, and exactly one statement has been added to the batch or
  written in a full batch. That statement is the buffer followed by the whole line,
  with nothing but white space removed at the two ends, so that what follows a
  first semicolon on the line is part of it. It is never empty.
\<close>

theorem semicolon_line_one_statement:
  assumes nc: "\<not> (startswith (strip line) (py_str ''--'') \<or> startswith (strip line) (py_str ''/*''))"
    and semi: "semicolon \<in> set line"
    and pl: "process_line self stem line st w = (Inr st', w')"
  shows "strip (concat (current_statement st @ [line])) \<noteq> [] \<and>
         current_statement st' = [] \<and>
         statement_count st' = statement_count st + 1 \<and>
         concat (map snd (new_files w w')) @ statements st'
           = statements st @ [strip (concat (current_statement st @ [line]))] \<and>
         (\<exists>a b. concat (current_statement st) @ line
                  = a @ strip (concat (current_statement st @ [line])) @ b \<and>
                (\<forall>c\<in>set a. isspace c) \<and> (\<forall>c\<in>set b. isspace c))"
proof -
  let ?s = "strip (concat (current_statement st @ [line]))"
  let ?n = "statements_per_file self"
  from nc have ncc: "\<not> is_comment line" by (simp add: is_comment_def)
  have ne: "?s \<noteq> []" using semi by (intro strip_nonempty_semicolon) simp
  have em: "emitted (current_statement st) [line] = [?s]"
    using ncc semi ne by simp
  note ok = process_line_ok [OF pl]
  from ok(1) have st': "st' = locals_after ?n st [line]" .
  from ok(2) have nf: "new_files w w' = files_of self stem st [line]" by (rule new_files_extends)
  have b: "current_statement st' = []" using ncc semi by (simp add: st' locals_after_def)
  have c: "statement_count st' = statement_count st + 1"
    by (simp only: st' locals_after_def em locals.simps) simp
  have d: "concat (map snd (new_files w w')) @ statements st' = statements st @ [?s]"
    by (simp only: nf st' files_of_def locals_after_def em locals.simps map_snd_named
        concat_flushed)
  from strip_decompose [of "concat (current_statement st @ [line])"]
  have e: "\<exists>a b. concat (current_statement st) @ line = a @ ?s @ b \<and>
                (\<forall>c\<in>set a. isspace c) \<and> (\<forall>c\<in>set b. isspace c)" by simp
  from ne b c d e show ?thesis by blast
qed

text \<open>
  A line with two semicolons and text after them, following a line without one.
\<close>

theorem semicolon_line_one_statement_witness:
  "\<not> (startswith (strip (py_str ''SELECT 1; SELECT 2; x\<newline>'')) (py_str ''--'') \<or>
      startswith (strip (py_str ''SELECT 1; SELECT 2; x\<newline>'')) (py_str ''/*'')) \<and>
   semicolon \<in> set (py_str ''SELECT 1; SELECT 2; x\<newline>'') \<and>
   process_line (ex_splitter [] 100) (py_str ''in'') (py_str ''SELECT 1; SELECT 2; x\<newline>'')
       \<lparr>statements = [], current_statement = [py_str ''INSERT\<newline>''],
        current_file_index = 0, statement_count = 0\<rparr> (ex_world [])
     = (Inr \<lparr>statements = [py_str ''INSERT\<newline>SELECT 1; SELECT 2; x''],
             current_statement = [], current_file_index = 0, statement_count = 1\<rparr>,
        ex_world []) \<and>
   strip (concat ([py_str ''INSERT\<newline>''] @ [py_str ''SELECT 1; SELECT 2; x\<newline>''])) \<noteq> []"
proof -
  let ?l = "py_str ''SELECT 1; SELECT 2; x\<newline>''"
  let ?st = "\<lparr>statements = [], current_statement = [py_str ''INSERT\<newline>''],
        current_file_index = 0, statement_count = 0\<rparr>"
  let ?st' = "\<lparr>statements = [py_str ''INSERT\<newline>SELECT 1; SELECT 2; x''],
             current_statement = [], current_file_index = 0, statement_count = 1\<rparr>"
  have nc: "\<not> (startswith (strip ?l) (py_str ''--'') \<or> startswith (strip ?l) (py_str ''/*''))"
    by (simp add: startswith_def strip_def isspace_def py_str_def)
  have semi: "semicolon \<in> set ?l" by (simp add: semicolon_def py_str_def)
  have pl: "process_line (ex_splitter [] 100) (py_str ''in'') ?l ?st (ex_world []) = (Inr ?st', ex_world [])"
    by (simp add: process_line_def is_comment_def startswith_def strip_def isspace_def
        py_str_def semicolon_def ex_splitter_def)
  from semicolon_line_one_statement [OF nc semi pl]
  have "strip (concat (current_statement ?st @ [?l])) \<noteq> []" by (rule conjunct1)
  then have ne: "strip (concat ([py_str ''INSERT\<newline>''] @ [?l])) \<noteq> []" by simp
  from nc semi pl ne show ?thesis by blast
qed


lemma join_snoc:
  "xs \<noteq> [] \<Longrightarrow> join sep xs = concat (map (\<lambda>s. s @ sep) (butlast xs)) @ last xs"
  by (induction sep xs rule: join.induct) simp_all

text \<open>
  C8. The writer, given a batch and a zero-based index, in a world where the output
  directory is a directory and the target is not one: it succeeds and changes the
  file system at one path only, \<open>{stem}_part{index+1:03d}.sql\<close> in the output
  directory, which afterwards holds the statements joined by \<open>\n\n\<close>, whatever was
  there before. The index is written in decimal with at least three characters. The
  joined text is each statement but the last followed by the separator, then the
  last statement: no separator at the end.
\<close>

theorem writer_contract:
  assumes dir: "node_at (fs w) (output_dir self) = Some Dir"
    and nd: "node_at (fs w) (output_dir self @ [output_name stem i]) \<noteq> Some Dir"
  shows "write_statements_to_file self stmts stem i w =
           (None,
            w\<lparr>fs := (fs w)(output_dir self @
                        [stem @ py_str ''_part'' @ format_03d (i + 1) @ py_str ''.sql'']
                      \<mapsto> File (join [10, 10] stmts)),
              written := written w @
                [(output_dir self @
                    [stem @ py_str ''_part'' @ format_03d (i + 1) @ py_str ''.sql''], stmts)]\<rparr>) \<and>
         3 \<le> length (format_03d (i + 1)) \<and>
         decimal_value (format_03d (i + 1)) = i + 1 \<and>
         join [10, 10] [] = [] \<and>
         (stmts \<noteq> [] \<longrightarrow>
            join [10, 10] stmts = concat (map (\<lambda>s. s @ [10, 10]) (butlast stmts)) @ last stmts)"
proof -
  have a: "write_statements_to_file self stmts stem i w =
           (None,
            w\<lparr>fs := (fs w)(output_dir self @ [output_name stem i] \<mapsto> File (join [10, 10] stmts)),
              written := written w @ [(output_dir self @ [output_name stem i], stmts)]\<rparr>)"
    using dir nd
    by (auto simp: write_statements_to_file_def open_write_def Let_def
        split: option.splits node.splits)
  have b: "3 \<le> length (format_03d (i + 1))" by (simp add: length_format)
  have c: "decimal_value (format_03d (i + 1)) = i + 1" by (rule decimal_value_format)
  have d: "stmts \<noteq> [] \<longrightarrow>
      join [10, 10] stmts = concat (map (\<lambda>s. s @ [10, 10]) (butlast stmts)) @ last stmts"
    by (simp add: join_snoc)
  from a [unfolded output_name_def] b c d show ?thesis by simp
qed

text \<open>
  A file with the target's name exists and holds other text: it is overwritten.
\<close>

theorem writer_contract_witness:
  "node_at (fs ((ex_world [])\<lparr>fs := (fs (ex_world []))
        ([py_str ''out'', py_str ''in_part001.sql''] \<mapsto> File (py_str ''old''))\<rparr>))
      (output_dir (ex_splitter [] 2)) = Some Dir \<and>
   node_at (fs ((ex_world [])\<lparr>fs := (fs (ex_world []))
        ([py_str ''out'', py_str ''in_part001.sql''] \<mapsto> File (py_str ''old''))\<rparr>))
      (output_dir (ex_splitter [] 2) @ [output_name (py_str ''in'') 0]) = Some (File (py_str ''old'')) \<and>
   fst (write_statements_to_file (ex_splitter [] 2) [py_str ''a;'', py_str ''b;''] (py_str ''in'') 0
     ((ex_world [])\<lparr>fs := (fs (ex_world []))
        ([py_str ''out'', py_str ''in_part001.sql''] \<mapsto> File (py_str ''old''))\<rparr>)) = None \<and>
   fs (snd (write_statements_to_file (ex_splitter [] 2) [py_str ''a;'', py_str ''b;''] (py_str ''in'') 0
     ((ex_world [])\<lparr>fs := (fs (ex_world []))
        ([py_str ''out'', py_str ''in_part001.sql''] \<mapsto> File (py_str ''old''))\<rparr>)))
     [py_str ''out'', py_str ''in_part001.sql''] = Some (File (py_str ''a;\<newline>\<newline>b;''))"
proof -
  let ?w = "(ex_world [])\<lparr>fs := (fs (ex_world []))
        ([py_str ''out'', py_str ''in_part001.sql''] \<mapsto> File (py_str ''old''))\<rparr>"
  let ?self = "ex_splitter [] 2"
  have dir: "node_at (fs ?w) (output_dir ?self) = Some Dir"
    by (simp add: node_at_def ex_world_def ex_splitter_def py_str_def)
  have old: "node_at (fs ?w) (output_dir ?self @ [output_name (py_str ''in'') 0])
      = Some (File (py_str ''old''))"
    by (simp add: node_at_def ex_world_def ex_splitter_def py_str_def output_name_def
        format_03d_def digits.simps numeral_2_eq_2)
  then have nd: "node_at (fs ?w) (output_dir ?self @ [output_name (py_str ''in'') 0]) \<noteq> Some Dir"
    by simp
  from writer_contract [OF dir nd, of "[py_str ''a;'', py_str ''b;'']"]
  have eq: "write_statements_to_file ?self [py_str ''a;'', py_str ''b;''] (py_str ''in'') 0 ?w =
           (None,
            ?w\<lparr>fs := (fs ?w)(output_dir ?self @
                        [py_str ''in'' @ py_str ''_part'' @ format_03d (0 + 1) @ py_str ''.sql'']
                      \<mapsto> File (join [10, 10] [py_str ''a;'', py_str ''b;''])),
              written := written ?w @
                [(output_dir ?self @
                    [py_str ''in'' @ py_str ''_part'' @ format_03d (0 + 1) @ py_str ''.sql''],
                  [py_str ''a;'', py_str ''b;''])]\<rparr>)"
    by (rule conjunct1)
  have fst: "fst (write_statements_to_file ?self [py_str ''a;'', py_str ''b;''] (py_str ''in'') 0 ?w) = None"
    unfolding eq by simp
  have new: "fs (snd (write_statements_to_file ?self [py_str ''a;'', py_str ''b;''] (py_str ''in'') 0 ?w))
     [py_str ''out'', py_str ''in_part001.sql''] = Some (File (py_str ''a;\<newline>\<newline>b;''))"
    unfolding eq
    by (simp add: ex_splitter_def py_str_def format_03d_def digits.simps numeral_2_eq_2)
  from dir old fst new show ?thesis by blast
qed


lemma as_one_fields [simp]:
  "output_dir (as_one self) = output_dir self"
  "input_file (as_one self) = input_file self"
  "file_size (as_one self) = file_size self"
  "start_time (as_one self) = start_time self"
  "processed_size (as_one self) = processed_size self"
  "last_progress_time (as_one self) = last_progress_time self"
  "statements_per_file (as_one self) = 1"
  by (simp_all add: as_one_def)

lemma as_one_update:
  "as_one (self\<lparr>processed_size := p\<rparr>) = (as_one self)\<lparr>processed_size := p\<rparr>"
  "as_one (self\<lparr>last_progress_time := t\<rparr>) = (as_one self)\<lparr>last_progress_time := t\<rparr>"
  by (simp_all add: as_one_def)

lemma update_progress_as_one:
  "update_progress (as_one self) k w =
     (case update_progress self k w of
        (Inl e, w1) \<Rightarrow> (Inl e, w1)
      | (Inr s, w1) \<Rightarrow> (Inr (as_one s), w1))"
  unfolding update_progress_def Let_def
  by (simp add: as_one_update [symmetric] split: prod.splits sum.splits)

lemma write_statements_as_one:
  "write_statements_to_file (as_one self) stmts stem i w = write_statements_to_file self stmts stem i w"
  by (simp add: write_statements_to_file_def)

lemma process_line_as_one:
  assumes "statements_per_file self \<le> 0" and "statements st = []"
  shows "process_line (as_one self) stem line st w = process_line self stem line st w"
  using assms by (simp add: process_line_def write_statements_as_one Let_def)

lemma process_line_empty_batch:
  assumes "statements_per_file self \<le> 0" and "statements st = []"
    and "process_line self stem line st w = (Inr st1, w1)"
  shows "statements st1 = []"
  using assms by (auto simp: process_line_def Let_def split: if_splits prod.splits option.splits)


lemma lines_loop_as_one:
  assumes "statements_per_file self \<le> 0" and "statements st = []"
  shows "lines_loop (as_one self) stem lines st w =
           (case lines_loop self stem lines st w of
              (Inl e, w1) \<Rightarrow> (Inl e, w1)
            | (Inr (s, st1), w1) \<Rightarrow> (Inr (as_one s, st1), w1))"
  using assms
proof (induction lines arbitrary: self st w)
  case Nil
  then show ?case by simp
next
  case (Cons l ls)
  obtain r1 w1 where up: "update_progress self (encoded_size l) w = (r1, w1)"
    by (cases "update_progress self (encoded_size l) w")
  show ?case
  proof (cases r1)
    case (Inl e)
    with up show ?thesis by (simp add: update_progress_as_one)
  next
    case (Inr self2)
    from update_progress_self [OF up [unfolded Inr]] Cons.prems
    have n2: "statements_per_file self2 \<le> 0" by simp
    obtain r2 w2 where pl: "process_line self2 stem l st w1 = (r2, w2)"
      by (cases "process_line self2 stem l st w1")
    show ?thesis
    proof (cases r2)
      case (Inl e)
      with up Inr pl n2 Cons.prems show ?thesis
        by (simp add: update_progress_as_one process_line_as_one)
    next
      case st2: (Inr st2)
      from process_line_empty_batch [OF n2 Cons.prems(2) pl [unfolded st2]]
      have e: "statements st2 = []" .
      from Cons.IH [OF n2 e] up Inr pl st2 n2 Cons.prems show ?thesis
        by (simp add: update_progress_as_one process_line_as_one)
    qed
  qed
qed

lemma lines_loop_empty_batch:
  assumes "statements_per_file self \<le> 0" and "statements st = []"
    and "lines_loop self stem lines st w = (Inr (self1, st1), w1)"
  shows "statements st1 = []"
  using assms
proof (induction lines arbitrary: self st w)
  case Nil
  then show ?case by simp
next
  case (Cons l ls)
  obtain r1 w1' where up: "update_progress self (encoded_size l) w = (r1, w1')"
    by (cases "update_progress self (encoded_size l) w")
  from Cons.prems(3) up obtain self2 where r1: "r1 = Inr self2" by (cases r1) simp_all
  from update_progress_self [OF up [unfolded r1]] Cons.prems
  have n2: "statements_per_file self2 \<le> 0" by simp
  obtain r2 w2 where pl: "process_line self2 stem l st w1' = (r2, w2)"
    by (cases "process_line self2 stem l st w1'")
  from Cons.prems(3) up r1 pl obtain st2 where r2: "r2 = Inr st2" by (cases r2) simp_all
  from process_line_empty_batch [OF n2 Cons.prems(2) pl [unfolded r2]]
  have e: "statements st2 = []" .
  from Cons.prems(3) up r1 pl r2 have "lines_loop self2 stem ls st2 w2 = (Inr (self1, st1), w1)"
    by simp
  from Cons.IH [OF n2 e this] show ?case .
qed

lemma write_remaining_as_one:
  "write_remaining (as_one self) stem st w = write_remaining self stem st w"
  by (simp add: write_remaining_def write_statements_as_one)

lemma print_summary_as_one: "print_summary (as_one self) st w = print_summary self st w"
  unfolding print_summary_def as_one_fields by (rule refl)

lemma split_sql_as_one:
  assumes "statements_per_file self \<le> 0"
  shows "split_sql (as_one self) w = split_sql self w"
proof (cases "open_read (fs w) (input_file self)")
  case (Inl e)
  then show ?thesis by (simp add: split_sql_initial)
next
  case (Inr lines)
  have st0: "statements initial_locals = []" by (simp add: initial_locals_def)
  note loop = lines_loop_as_one [OF assms st0, of "path_stem (input_file self)" lines w]
  show ?thesis
    by (simp add: split_sql_initial Inr loop write_remaining_as_one print_summary_as_one
        split: prod.splits sum.splits)
qed


lemma init_as_one:
  "SQLSplitter_init inp out 1 w =
     (case SQLSplitter_init inp out n w of
        (Inl e, w1) \<Rightarrow> (Inl e, w1)
      | (Inr s, w1) \<Rightarrow> (Inr (as_one s), w1))"
  by (simp add: SQLSplitter_init_def as_one_def time_time_def Let_def
      split: sum.splits prod.splits)

lemma init_stores:
  "SQLSplitter_init inp out n w = (Inr s, w1) \<Longrightarrow> statements_per_file s = n"
  by (auto simp: SQLSplitter_init_def time_time_def Let_def split: sum.splits if_splits)

lemma init_any_n:
  "SQLSplitter_init inp out n w =
     (case SQLSplitter_init inp out 1 w of
        (Inl e, w1) \<Rightarrow> (Inl e, w1)
      | (Inr s, w1) \<Rightarrow> (Inr (s\<lparr>statements_per_file := n\<rparr>), w1))"
  by (simp add: SQLSplitter_init_def time_time_def Let_def split: sum.splits prod.splits)

lemma main_as_one:
  assumes "n \<le> 0"
  shows "main inp out n w = main inp out 1 w"
proof -
  obtain r1 w1 where i: "SQLSplitter_init inp out n w = (r1, w1)"
    by (cases "SQLSplitter_init inp out n w")
  show ?thesis
  proof (cases r1)
    case (Inl e)
    with i show ?thesis by (simp add: main_def init_as_one [of inp out w n])
  next
    case (Inr s)
    from init_stores [OF i [unfolded Inr]] assms have "statements_per_file s \<le> 0" by simp
    from split_sql_as_one [OF this] i Inr show ?thesis
      by (simp add: main_def init_as_one [of inp out w n])
  qed
qed

lemma flushed_nonpositive:
  "n \<le> 0 \<Longrightarrow> flushed n [] ss = map (\<lambda>s. [s]) ss \<and> pending n [] ss = []"
  by (induction ss) simp_all

lemma batches_nonpositive: "n \<le> 0 \<Longrightarrow> batches n ss = map (\<lambda>s. [s]) ss"
  by (simp add: batches_def flushed_nonpositive)


lemmas main_defs = main_def SQLSplitter_init_def makedirs_def makedirs_under.simps
  mkdir_exist_ok_def path_exists_def getsize_def lookup_def walk.simps dot_def dotdot_def

text \<open>
  C2, as the code has it. A zero or negative \<open>statements_per_file\<close> is not rejected.
  The constructor stores the value without looking at it: it does what it does for
  any other value. The program then runs exactly as with a batch size of one, with
  the same exit status, the same files and the same output: every statement comes
  into a file of its own.
\<close>

theorem nonpositive_batch_size_runs_as_one:
  assumes "n \<le> 0"
  shows "SQLSplitter_init inp out n w =
           (case SQLSplitter_init inp out 1 w of
              (Inl e, w1) \<Rightarrow> (Inl e, w1)
            | (Inr s, w1) \<Rightarrow> (Inr (s\<lparr>statements_per_file := n\<rparr>), w1)) \<and>
         main inp out n w = main inp out 1 w \<and>
         (\<forall>self r w'. statements_per_file self = n \<and> split_sql self w = (r, w') \<longrightarrow>
            (\<forall>f\<in>set (new_files w w'). length (snd f) = 1))"
proof -
  have c: "\<forall>f\<in>set (new_files w w'). length (snd f) = 1"
    if n: "statements_per_file self = n" and run: "split_sql self w = (r, w')" for self r w'
  proof (cases "open_read (fs w) (input_file self)")
    case (Inl e)
    from split_sql_unreadable(1) [OF run Inl] have "new_files w w' = []"
      by (rule new_files_extends)
    then show ?thesis by simp
  next
    case rd: (Inr lines)
    from split_sql_any [OF run rd] obtain k where "extends w w' (take k (output_files self lines))" ..
    then have nf: "new_files w w' = take k (output_files self lines)" by (rule new_files_extends)
    show ?thesis
    proof
      fix f assume "f \<in> set (new_files w w')"
      then have "f \<in> set (output_files self lines)" unfolding nf by (rule in_set_takeD)
      then have "snd f \<in> set (batches n (spec_statements lines))"
        unfolding output_files_def n by (rule set_named_snd)
      with assms show "length (snd f) = 1" by (auto simp: batches_nonpositive)
    qed
  qed
  from init_any_n [of inp out n w] main_as_one [OF assms, of inp out w] c show ?thesis by blast
qed

text \<open>
  A batch size of minus three.
\<close>

theorem nonpositive_batch_size_runs_as_one_witness:
  "(- 3 :: int) \<le> 0 \<and>
   main [py_str ''in.sql''] [py_str ''out''] (- 3) (ex_world (py_str ''a;\<newline>b;\<newline>''))
     = main [py_str ''in.sql''] [py_str ''out''] 1 (ex_world (py_str ''a;\<newline>b;\<newline>''))"
proof -
  have h: "(- 3 :: int) \<le> 0" by simp
  from nonpositive_batch_size_runs_as_one [OF h] h show ?thesis by blast
qed

text \<open>
  C2, as the specification states it, fails: with a batch size of zero the
  constructor raises nothing, the program exits with status 0, and the two
  statements of the input have been read and written to two files.
\<close>

theorem nonpositive_batch_size_counterexample:
  "\<not> isl (fst (SQLSplitter_init [py_str ''in.sql''] [py_str ''out''] 0
              (ex_world (py_str ''a;\<newline>b;\<newline>'')))) \<and>
   fst (main [py_str ''in.sql''] [py_str ''out''] 0 (ex_world (py_str ''a;\<newline>b;\<newline>''))) = 0 \<and>
   written (snd (main [py_str ''in.sql''] [py_str ''out''] 0
                   (ex_world (py_str ''a;\<newline>b;\<newline>''))))
     = [([py_str ''out'', py_str ''in_part001.sql''], [py_str ''a;'']),
        ([py_str ''out'', py_str ''in_part002.sql''], [py_str ''b;''])]"
  by (simp add: main_defs run_defs)













lemma text_lines_newline: "text_lines (10 # cs) = [10] # text_lines cs"
  by (simp add: text_lines_def)

lemma encoded_size_replicate: "encoded_size (replicate k c) = k * utf8_len c"
  by (simp add: encoded_size_def sum_list_replicate)

lemma encoded_size_Cons: "encoded_size (c # cs) = utf8_len c + encoded_size cs"
  by (simp add: encoded_size_def)

lemma encoded_size_Nil: "encoded_size [] = 0"
  by (simp add: encoded_size_def)

lemma lines_loop_first_raises:
  "update_progress self (encoded_size l) w = (Inl e, w1) \<Longrightarrow>
   lines_loop self stem (l # rest) st w = (Inl e, w1)"
  by simp

lemma big_report_overflows:
  "update_progress (ex_splitter (10 # replicate (2 ^ 30) 97) 100) (encoded_size [10])
     (late_world (10 # replicate (2 ^ 30) 97) 131072)
   = (Inl OverflowError, (late_world (10 # replicate (2 ^ 30) 97) 131072)\<lparr>ticks := 1\<rparr>)"
  by (simp add: update_progress_def ex_splitter_def late_world_def ex_world_def time_time_def
      encoded_size_replicate encoded_size_Cons encoded_size_Nil utf8_len_def format_time_def
      py_int_def Let_def)


text \<open>
  What does hold of the progress reports: two runs that return have written the same
  files with the same content, whatever their clocks, their output and the progress
  fields of their splitters; and a run that is aborted has written the first of
  these files.
\<close>

lemma completed_runs_agree:
  assumes r1: "split_sql self1 w1 = (None, w1')"
    and r2: "split_sql self2 w2 = (None, w2')"
    and same: "fs w1 = fs w2" "input_file self1 = input_file self2"
      "output_dir self1 = output_dir self2"
      "statements_per_file self1 = statements_per_file self2"
  shows "new_files w1 w1' = new_files w2 w2'" and "fs w1' = fs w2'"
proof -
  from split_sql_ok [OF r1] obtain l1 where
    l1: "open_read (fs w1) (input_file self1) = Inr l1" and e1: "extends w1 w1' (output_files self1 l1)"
    by blast
  from split_sql_ok [OF r2] obtain l2 where
    l2: "open_read (fs w2) (input_file self2) = Inr l2" and e2: "extends w2 w2' (output_files self2 l2)"
    by blast
  from l1 l2 same have "l1 = l2" by simp
  with same have o: "output_files self1 l1 = output_files self2 l2"
    by (simp add: output_files_def)
  from new_files_extends [OF e1] new_files_extends [OF e2] o
  show "new_files w1 w1' = new_files w2 w2'" by simp
  from extends_fs [OF e1] extends_fs [OF e2] o same show "fs w1' = fs w2'" by simp
qed

lemma aborted_run_prefix:
  assumes "split_sql self w = (r, w')"
    and "open_read (fs w) (input_file self) = Inr lines"
  shows "prefix (new_files w w') (output_files self lines)"
proof -
  from split_sql_any [OF assms] obtain k where "extends w w' (take k (output_files self lines))" ..
  then have "new_files w w' = take k (output_files self lines)" by (rule new_files_extends)
  then show ?thesis by (simp add: take_is_prefix)
qed

text \<open>
  C9. The progress report can end a run. \<open>_update_progress\<close> is called inside the
  \<open>try\<close> of \<open>split_sql\<close>, and \<open>_format_time\<close> raises \<open>OverflowError\<close> when the
  estimated remaining time is above 999999999 days. Two runs on the same input
  \<open>a;\n b;\n\<close>, with the same file system and batch size, that differ in the clock
  only: one returns and has written the file, the other one is aborted at the first
  line and has written nothing. The same happens for an input of one GiB and one
  byte whose first line is an empty line, when \<open>split_sql\<close> is called 131072
  seconds after the splitter was built.
\<close>

theorem reporting_aborts_run:
  "fs (late_world (py_str ''a;\<newline>b;\<newline>'') (10 ^ 14)) = fs (ex_world (py_str ''a;\<newline>b;\<newline>'')) \<and>
   fst (split_sql (ex_splitter (py_str ''a;\<newline>b;\<newline>'') 100)
          (ex_world (py_str ''a;\<newline>b;\<newline>''))) = None \<and>
   written (snd (split_sql (ex_splitter (py_str ''a;\<newline>b;\<newline>'') 100)
                   (ex_world (py_str ''a;\<newline>b;\<newline>''))))
     = [([py_str ''out'', py_str ''in_part001.sql''], [py_str ''a;'', py_str ''b;''])] \<and>
   split_sql (ex_splitter (py_str ''a;\<newline>b;\<newline>'') 100)
       (late_world (py_str ''a;\<newline>b;\<newline>'') (10 ^ 14))
     = (Some (SystemExit 1),
        print (ProcessingError OverflowError)
          ((late_world (py_str ''a;\<newline>b;\<newline>'') (10 ^ 14))\<lparr>ticks := 1\<rparr>)) \<and>
   split_sql (ex_splitter (10 # replicate (2 ^ 30) 97) 100)
       (late_world (10 # replicate (2 ^ 30) 97) 131072)
     = (Some (SystemExit 1),
        print (ProcessingError OverflowError)
          ((late_world (10 # replicate (2 ^ 30) 97) 131072)\<lparr>ticks := 1\<rparr>))"
proof -
  let ?c = "py_str ''a;\<newline>b;\<newline>''"
  let ?big = "10 # replicate (2 ^ 30) 97"
  have a: "fs (late_world ?c (10 ^ 14)) = fs (ex_world ?c)" by (simp add: late_world_def)
  have b: "fst (split_sql (ex_splitter ?c 100) (ex_world ?c)) = None \<and>
      written (snd (split_sql (ex_splitter ?c 100) (ex_world ?c)))
        = [([py_str ''out'', py_str ''in_part001.sql''], [py_str ''a;'', py_str ''b;''])]"
    by (simp add: run_defs)
  have c: "split_sql (ex_splitter ?c 100) (late_world ?c (10 ^ 14))
     = (Some (SystemExit 1),
        print (ProcessingError OverflowError) ((late_world ?c (10 ^ 14))\<lparr>ticks := 1\<rparr>))"
    by (simp add: run_defs late_world_def)
  have rd: "open_read (fs (late_world ?big 131072)) (input_file (ex_splitter ?big 100))
      = Inr ([10] # text_lines (replicate (2 ^ 30) 97))"
    by (simp add: open_read_def lookup_def dot_def dotdot_def node_at_def late_world_def
        ex_world_def ex_splitter_def py_str_def text_lines_newline)
  have d: "split_sql (ex_splitter ?big 100) (late_world ?big 131072)
     = (Some (SystemExit 1),
        print (ProcessingError OverflowError) ((late_world ?big 131072)\<lparr>ticks := 1\<rparr>))"
    unfolding split_sql_initial rd sum.case
      lines_loop_first_raises [OF big_report_overflows] prod.case
    by (simp add: on_exception_def)
  from a b c d show ?thesis by blast
qed

end
